theory Spec2Isabelle
  imports Complex_Main "HOL-Library.Sublist" "HOL-Library.AList"
begin

section \<open>Strings\<close>

text \<open>
  JavaScript strings are modelled as \<open>string\<close>. All separators and literals the code tests
  for (\<open>/\<close>, the line feed, \<open>.jsonl\<close>, \<open>agent-\<close>) are ASCII, so splitting and prefix tests
  on UTF-8 bytes agree with the source's tests on UTF-16 code units.
\<close>

text \<open>\<open>s.split(c)\<close> for a one-character separator: never the empty array.\<close>

fun str_split :: "char \<Rightarrow> string \<Rightarrow> string list" where
  "str_split c [] = [[]]"
| "str_split c (x # xs) =
     (if x = c then [] # str_split c xs
      else (case str_split c xs of
              [] \<Rightarrow> [[x]]
            | part # parts \<Rightarrow> (x # part) # parts))"

text \<open>\<open>parts.join(c)\<close>.\<close>

fun str_join :: "char \<Rightarrow> string list \<Rightarrow> string" where
  "str_join c [] = []"
| "str_join c [l] = l"
| "str_join c (l # m # ls) = l @ c # str_join c (m # ls)"

definition startsWith :: "string \<Rightarrow> string \<Rightarrow> bool" where
  "startsWith s p = prefix p s"

definition endsWith :: "string \<Rightarrow> string \<Rightarrow> bool" where
  "endsWith s p = suffix p s"

text \<open>\<open>s.replace(/\/$/, '')\<close>: one trailing slash is removed.\<close>

definition stripTrailingSlash :: "string \<Rightarrow> string" where
  "stripTrailingSlash s = (if s \<noteq> [] \<and> last s = CHR ''/'' then butlast s else s)"

text \<open>
  \<open>path.join(a, b)\<close> on the paths the service builds: both parts are already normalised,
  so the join is the concatenation around one separator.
\<close>

definition path_join :: "string \<Rightarrow> string \<Rightarrow> string" where
  "path_join a b = a @ ''/'' @ b"

section \<open>The WebDAV client\<close>

datatype error =
    NetworkError
  | RequestFailed
  | MkdirFailed nat
  | DeleteFailed nat
  | UploadFailed nat
  | FileNotFound
  | DownloadFailed nat
  | FsError

text \<open>
  \<open>fetch\<close> either throws (a transport failure) or resolves with a response, of which the
  client reads the status only. The remote store is an oracle: the answer to the
  \<open>n\<close>-th request the client sends, given its method and path.
\<close>

type_synonym response = "error + nat"
type_synonym server = "nat \<Rightarrow> string \<Rightarrow> string \<Rightarrow> response"

datatype event = Sent string string | Backoff int

text \<open>
  The client's fields, the wall clock \<open>Date.now()\<close> in milliseconds, the number of
  requests sent and the log of what went over the wire. A timer of \<open>d\<close> ms advances the
  clock by \<open>d\<close>.
\<close>

record client =
  minInterval :: int
  lastRequestTime :: int
  knownDirs :: "string set"
  now :: int
  sent :: nat
  trace :: "event list"

definition newClient :: "int \<Rightarrow> client" where
  "newClient t = \<lparr>minInterval = 1500, lastRequestTime = 0, knownDirs = {}, now = t,
     sent = 0, trace = []\<rparr>"

definition sleep :: "int \<Rightarrow> client \<Rightarrow> client" where
  "sleep d st = st\<lparr>now := now st + d\<rparr>"

definition throttle :: "client \<Rightarrow> client" where
  "throttle st =
     (let elapsed = now st - lastRequestTime st;
          st1 = (if elapsed < minInterval st then sleep (minInterval st - elapsed) st else st)
      in st1\<lparr>lastRequestTime := now st1\<rparr>)"

definition fetch :: "server \<Rightarrow> string \<Rightarrow> string \<Rightarrow> client \<Rightarrow> response \<times> client" where
  "fetch srv method remotePath st =
     (srv (sent st) method remotePath,
      st\<lparr>sent := Suc (sent st), trace := trace st @ [Sent method remotePath]\<rparr>)"

text \<open>The state in which a rate-limited attempt leaves the client before the next one.\<close>

definition slowDown :: "nat \<Rightarrow> client \<Rightarrow> client" where
  "slowDown attempt st =
     (let st1 = st\<lparr>minInterval := min (minInterval st * 2) 10000\<rparr>;
          delay = min (3000 * 2 ^ attempt) 30000
      in sleep delay (st1\<lparr>trace := trace st1 @ [Backoff delay]\<rparr>))"

text \<open>The \<open>for\<close> loop of \<open>request\<close>, from \<open>attempt\<close> on.\<close>

function request_loop ::
  "server \<Rightarrow> string \<Rightarrow> string \<Rightarrow> nat \<Rightarrow> nat \<Rightarrow> client \<Rightarrow> response \<times> client" where
  "request_loop srv method remotePath maxRetries attempt st =
     (if attempt \<le> maxRetries then
        (case fetch srv method remotePath (throttle st) of
           (Inl e, st2) \<Rightarrow> (Inl e, st2)
         | (Inr status, st2) \<Rightarrow>
             if status = 503 \<and> attempt < maxRetries
             then request_loop srv method remotePath maxRetries (Suc attempt)
                    (slowDown attempt st2)
             else (Inr status, st2))
      else (Inl RequestFailed, st))"
  by pat_completeness auto
termination
  by (relation "measure (\<lambda>(srv, method, remotePath, maxRetries, attempt, st).
        Suc maxRetries - attempt)") auto

declare request_loop.simps [simp del]

definition request ::
  "server \<Rightarrow> string \<Rightarrow> string \<Rightarrow> nat option \<Rightarrow> client \<Rightarrow> response \<times> client" where
  "request srv method remotePath retries st =
     request_loop srv method remotePath (case retries of None \<Rightarrow> 3 | Some r \<Rightarrow> r) 0 st"

definition testConnection :: "server \<Rightarrow> client \<Rightarrow> (error + bool) \<times> client" where
  "testConnection srv st =
     (case request srv ''PROPFIND'' ''/'' None st of
        (Inr status, st') \<Rightarrow> (Inr (status = 207 \<or> status = 200), st')
      | (Inl e, st') \<Rightarrow> (Inr False, st'))"

definition exists_path :: "server \<Rightarrow> string \<Rightarrow> client \<Rightarrow> (error + bool) \<times> client" where
  "exists_path srv remotePath st =
     (case request srv ''PROPFIND'' remotePath None st of
        (Inr status, st') \<Rightarrow> (Inr (status = 207 \<or> status = 200), st')
      | (Inl e, st') \<Rightarrow> (Inr False, st'))"

definition mkdir :: "server \<Rightarrow> string \<Rightarrow> client \<Rightarrow> (error + unit) \<times> client" where
  "mkdir srv remotePath st =
     (case request srv ''MKCOL'' remotePath None st of
        (Inl e, st') \<Rightarrow> (Inl e, st')
      | (Inr status, st') \<Rightarrow>
          if status \<noteq> 201 \<and> status \<noteq> 405 \<and> status \<ge> 400
          then (Inl (MkdirFailed status), st')
          else (Inr (), st'))"

definition delete :: "server \<Rightarrow> string \<Rightarrow> client \<Rightarrow> (error + unit) \<times> client" where
  "delete srv remotePath st =
     (case request srv ''DELETE'' remotePath None st of
        (Inl e, st') \<Rightarrow> (Inl e, st')
      | (Inr status, st') \<Rightarrow>
          if status \<ge> 400 \<and> status \<noteq> 404
          then (Inl (DeleteFailed status), st')
          else (Inr (), st'))"

text \<open>The loop of \<open>mkdirp\<close> over the remaining segments, \<open>current\<close> being the prefix so far.\<close>

fun mkdirp_loop :: "server \<Rightarrow> string \<Rightarrow> string list \<Rightarrow> client \<Rightarrow> (error + unit) \<times> client" where
  "mkdirp_loop srv current [] st = (Inr (), st)"
| "mkdirp_loop srv current (part # parts) st =
     (let current' = current @ ''/'' @ part in
      if current' \<in> knownDirs st then mkdirp_loop srv current' parts st
      else (case mkdir srv current' st of
              (Inl e, st') \<Rightarrow> (Inl e, st')
            | (Inr u, st') \<Rightarrow>
                mkdirp_loop srv current' parts
                  (st'\<lparr>knownDirs := insert current' (knownDirs st')\<rparr>)))"

definition mkdirp :: "server \<Rightarrow> string \<Rightarrow> client \<Rightarrow> (error + unit) \<times> client" where
  "mkdirp srv remotePath st =
     mkdirp_loop srv [] (filter (\<lambda>p. p \<noteq> []) (str_split CHR ''/'' remotePath)) st"

definition upload :: "server \<Rightarrow> string \<Rightarrow> client \<Rightarrow> (error + unit) \<times> client" where
  "upload srv remotePath st =
     (case request srv ''PUT'' remotePath None st of
        (Inl e, st') \<Rightarrow> (Inl e, st')
      | (Inr status, st') \<Rightarrow>
          if status \<ge> 400 then (Inl (UploadFailed status), st') else (Inr (), st'))"

text \<open>\<open>download\<close>, \<open>body\<close> being the bytes that the response carries.\<close>

definition download :: "server \<Rightarrow> string \<Rightarrow> string \<Rightarrow> client \<Rightarrow> (error + string) \<times> client" where
  "download srv body remotePath st =
     (case request srv ''GET'' remotePath None st of
        (Inl e, st') \<Rightarrow> (Inl e, st')
      | (Inr status, st') \<Rightarrow>
          if status = 404 then (Inl FileNotFound, st')
          else if status \<ge> 400 then (Inl (DownloadFailed status), st')
          else (Inr body, st'))"

text \<open>
  What \<open>k\<close> rate-limited attempts, the first of them being attempt number \<open>a\<close>, leave
  on the wire: the request, then the capped exponential backoff.
\<close>

definition retryEvents :: "string \<Rightarrow> string \<Rightarrow> nat \<Rightarrow> nat \<Rightarrow> event list" where
  "retryEvents m p a k =
     concat (map (\<lambda>i. [Sent m p, Backoff (min (3000 * 2 ^ (a + i)) 30000)]) [0..<k])"

subsection \<open>Directory prefixes and client sessions\<close>

text \<open>
  The ancestor prefixes of a path, outermost first: what \<open>current\<close> runs through in
  \<open>mkdirp\<close>.
\<close>

fun ancestorsFrom :: "string \<Rightarrow> string list \<Rightarrow> string list" where
  "ancestorsFrom current [] = []"
| "ancestorsFrom current (part # parts) =
     (current @ ''/'' @ part) # ancestorsFrom (current @ ''/'' @ part) parts"

definition ancestorPrefixes :: "string \<Rightarrow> string list" where
  "ancestorPrefixes remotePath =
     ancestorsFrom [] (filter (\<lambda>p. p \<noteq> []) (str_split CHR ''/'' remotePath))"

text \<open>The targets of the \<open>MKCOL\<close> requests in a log, in the order sent.\<close>

definition mkcolTargets :: "event list \<Rightarrow> string list" where
  "mkcolTargets es =
     concat (map (\<lambda>e. case e of Sent m p \<Rightarrow> if m = ''MKCOL'' then [p] else []
                          | Backoff d \<Rightarrow> []) es)"

text \<open>
  Every event is a backoff or a \<open>MKCOL\<close> request to one of the directories \<open>ds\<close>.
\<close>

definition mkcolOnly :: "string set \<Rightarrow> event list \<Rightarrow> bool" where
  "mkcolOnly ds es = list_all (\<lambda>e. case e of Sent m p \<Rightarrow> m = ''MKCOL'' \<and> p \<in> ds
                                      | Backoff d \<Rightarrow> True) es"

text \<open>
  A client session: the calls a user of the client makes, one after the other, whatever
  each of them returns. \<open>mkdir\<close> is called by \<open>mkdirp\<close> only.
\<close>

datatype client_call = CallMkdirp string | CallUpload string | CallDelete string
  | CallExists string

fun call :: "server \<Rightarrow> client_call \<Rightarrow> client \<Rightarrow> client" where
  "call srv (CallMkdirp p) st = snd (mkdirp srv p st)"
| "call srv (CallUpload p) st = snd (upload srv p st)"
| "call srv (CallDelete p) st = snd (delete srv p st)"
| "call srv (CallExists p) st = snd (exists_path srv p st)"

definition session :: "server \<Rightarrow> client_call list \<Rightarrow> client \<Rightarrow> client" where
  "session srv calls st = fold (call srv) calls st"

text \<open>The server answers every \<open>MKCOL\<close> with a status that \<open>mkdir\<close> accepts.\<close>

definition mkcolAccepted :: "server \<Rightarrow> bool" where
  "mkcolAccepted srv =
     (\<forall>n p. \<exists>s. srv n ''MKCOL'' p = Inr s \<and> (s = 201 \<or> s = 405 \<or> s < 400))"

text \<open>
  Every directory a \<open>MKCOL\<close> was sent for is in the cache, and none was sent twice.
\<close>

definition cacheCovers :: "client \<Rightarrow> bool" where
  "cacheCovers st = (set (mkcolTargets (trace st)) \<subseteq> knownDirs st
     \<and> distinct (mkcolTargets (trace st)))"

section \<open>The sync service\<close>

text \<open>
  Sizes are byte counts. Modification times and timestamps are JavaScript numbers in
  milliseconds (\<open>mtimeMs\<close> has a fractional part); they are only compared and added to, and
  are modelled as reals. A JavaScript \<open>Map\<close> is an association list with distinct keys that
  keeps insertion order: \<open>set\<close> is \<open>AList.update\<close>, \<open>get\<close> is \<open>map_of\<close>.
\<close>

subsection \<open>The manifest\<close>

record ManifestEntry =
  m_size :: nat
  m_mtimeMs :: real
  syncedAt :: real

type_synonym manifest = "string \<rightharpoonup> ManifestEntry"

definition getEntry :: "manifest \<Rightarrow> string \<Rightarrow> ManifestEntry option" where
  "getEntry files relativePath = files relativePath"

definition setEntry :: "manifest \<Rightarrow> string \<Rightarrow> ManifestEntry \<Rightarrow> manifest" where
  "setEntry files relativePath entry = files(relativePath \<mapsto> entry)"

definition removeEntry :: "manifest \<Rightarrow> string \<Rightarrow> manifest" where
  "removeEntry files relativePath = files(relativePath := None)"

subsection \<open>Planned transfers\<close>

record WebDavFileInfo =
  path :: string
  f_size :: nat
  lastModified :: real
  isDirectory :: bool

record LocalFile =
  fullPath :: string
  l_size :: nat
  l_mtimeMs :: real

datatype action = Upload | Download

record FileChange =
  relativePath :: string
  localPath :: "string option"
  action :: action
  localMtime :: "real option"
  remoteMtime :: "real option"
  c_size :: "nat option"

definition uploadChange :: "string \<Rightarrow> LocalFile \<Rightarrow> FileChange" where
  "uploadChange rel local =
     \<lparr>relativePath = rel, localPath = Some (fullPath local), action = Upload,
      localMtime = Some (l_mtimeMs local), remoteMtime = None, c_size = Some (l_size local)\<rparr>"

definition downloadChange :: "string \<Rightarrow> WebDavFileInfo \<Rightarrow> FileChange" where
  "downloadChange rel info =
     \<lparr>relativePath = rel, localPath = None, action = Download, localMtime = None,
      remoteMtime = Some (lastModified info), c_size = Some (f_size info)\<rparr>"

subsection \<open>\<open>computeUploadChanges\<close>\<close>

fun computeUploadChanges ::
  "manifest \<Rightarrow> (string \<times> LocalFile) list \<Rightarrow> (string \<times> WebDavFileInfo) list \<Rightarrow> FileChange list"
  where
  "computeUploadChanges mf [] remoteFiles = []"
| "computeUploadChanges mf ((rel, local) # rest) remoteFiles =
     (case map_of remoteFiles rel of
        None \<Rightarrow> uploadChange rel local # computeUploadChanges mf rest remoteFiles
      | Some remote \<Rightarrow>
          (case getEntry mf rel of
             Some manifest \<Rightarrow>
               if l_size local \<noteq> m_size manifest \<or> l_mtimeMs local > m_mtimeMs manifest + 1000
               then uploadChange rel local # computeUploadChanges mf rest remoteFiles
               else computeUploadChanges mf rest remoteFiles
           | None \<Rightarrow> uploadChange rel local # computeUploadChanges mf rest remoteFiles))"

subsection \<open>Scanning the remote hosts\<close>

text \<open>
  What \<open>client.list\<close> returns for a remote directory: the entries of its listing, or an
  error when it throws.
\<close>

type_synonym lister = "string \<Rightarrow> error + WebDavFileInfo list"

definition listRemoteHosts :: "lister \<Rightarrow> string list" where
  "listRemoteHosts lst =
     (case lst ''/hosts'' of
        Inl e \<Rightarrow> []
      | Inr items \<Rightarrow> map (\<lambda>i. stripTrailingSlash (path i)) (filter isDirectory items))"

text \<open>The loop over the session files of one remote project directory.\<close>

fun scanSessionFiles ::
  "string \<Rightarrow> string \<Rightarrow> WebDavFileInfo list \<Rightarrow> (string \<times> WebDavFileInfo) list
    \<Rightarrow> (string \<times> WebDavFileInfo) list" where
  "scanSessionFiles host projName [] files = files"
| "scanSessionFiles host projName (file # rest) files =
     (if isDirectory file \<or> \<not> endsWith (path file) ''.jsonl'' \<or> startsWith (path file) ''agent-''
      then scanSessionFiles host projName rest files
      else scanSessionFiles host projName rest
             (AList.update (''hosts/'' @ host @ ''/projects/'' @ projName @ ''/'' @ path file)
                file files))"

text \<open>
  The loop over the project directories of one host. An error thrown by a listing leaves
  the loop, and the files found so far are returned.
\<close>

fun scanProjects ::
  "lister \<Rightarrow> string \<Rightarrow> WebDavFileInfo list \<Rightarrow> (string \<times> WebDavFileInfo) list
    \<Rightarrow> (string \<times> WebDavFileInfo) list" where
  "scanProjects lst host [] files = files"
| "scanProjects lst host (projDir # rest) files =
     (if \<not> isDirectory projDir then scanProjects lst host rest files
      else (case lst (''/hosts/'' @ host @ ''/projects/'' @ stripTrailingSlash (path projDir)) of
              Inl e \<Rightarrow> files
            | Inr sessionFiles \<Rightarrow>
                scanProjects lst host rest
                  (scanSessionFiles host (stripTrailingSlash (path projDir)) sessionFiles files)))"

definition scanHostRemoteFiles :: "lister \<Rightarrow> string \<Rightarrow> (string \<times> WebDavFileInfo) list" where
  "scanHostRemoteFiles lst host =
     (case lst (''/hosts/'' @ host @ ''/projects'') of
        Inl e \<Rightarrow> []
      | Inr projectDirs \<Rightarrow> scanProjects lst host projectDirs [])"

subsection \<open>The local file system\<close>

record Stats =
  st_isDirectory :: bool
  st_size :: nat
  st_mtimeMs :: real

record filesystem =
  existsSync :: "string \<Rightarrow> bool"
  readdirSync :: "string \<Rightarrow> error + string list"
  statSync :: "string \<Rightarrow> error + Stats"

subsection \<open>The download plan of \<open>performSync\<close>\<close>

text \<open>The loop over the files of one other host: the changes it pushes.\<close>

fun planHostFiles ::
  "filesystem \<Rightarrow> string \<Rightarrow> manifest \<Rightarrow> (string \<times> WebDavFileInfo) list \<Rightarrow> FileChange list" where
  "planHostFiles fs cacheDir mf [] = []"
| "planHostFiles fs cacheDir mf ((rel, info) # rest) =
     (let cachePath = path_join cacheDir rel;
          manifest = getEntry mf rel;
          needDownload =
            (if \<not> existsSync fs cachePath then True
             else (case manifest of
                     Some m \<Rightarrow> lastModified info > syncedAt m + 1000
                   | None \<Rightarrow> True))
      in (if needDownload then [downloadChange rel info] else [])
         @ planHostFiles fs cacheDir mf rest)"

text \<open>The loop over the hosts found under \<open>/hosts\<close>.\<close>

fun planDownloads ::
  "lister \<Rightarrow> filesystem \<Rightarrow> string \<Rightarrow> manifest \<Rightarrow> string \<Rightarrow> string list \<Rightarrow> FileChange list" where
  "planDownloads lst fs cacheDir mf hostname [] = []"
| "planDownloads lst fs cacheDir mf hostname (host # rest) =
     (if host = hostname then planDownloads lst fs cacheDir mf hostname rest
      else planHostFiles fs cacheDir mf (scanHostRemoteFiles lst host)
           @ planDownloads lst fs cacheDir mf hostname rest)"

definition downloadChanges ::
  "lister \<Rightarrow> filesystem \<Rightarrow> string \<Rightarrow> manifest \<Rightarrow> string \<Rightarrow> FileChange list" where
  "downloadChanges lst fs cacheDir mf hostname =
     planDownloads lst fs cacheDir mf hostname (listRemoteHosts lst)"

subsection \<open>\<open>scanLocalFiles\<close>\<close>

text \<open>
  The loops of \<open>scanLocalFiles\<close>. An error thrown by \<open>readdirSync\<close> or \<open>statSync\<close> leaves
  the \<open>try\<close> block of the current root directory: the loops return it next to the files
  collected so far, which stay in the map. \<open>clock\<close> is \<open>Date.now()\<close>.
\<close>

fun scanFiles ::
  "filesystem \<Rightarrow> string \<Rightarrow> real \<Rightarrow> string \<Rightarrow> string \<Rightarrow> string list
    \<Rightarrow> (string \<times> LocalFile) list \<Rightarrow> error option \<times> (string \<times> LocalFile) list" where
  "scanFiles fs hostname clock fullProjectDir projectDir [] files = (None, files)"
| "scanFiles fs hostname clock fullProjectDir projectDir (file # rest) files =
     (case statSync fs (path_join fullProjectDir file) of
        Inl e \<Rightarrow> (Some e, files)
      | Inr stat \<Rightarrow>
          if st_isDirectory stat \<or> st_size stat = 0
          then scanFiles fs hostname clock fullProjectDir projectDir rest files
          else if clock - st_mtimeMs stat < 30000
          then scanFiles fs hostname clock fullProjectDir projectDir rest files
          else scanFiles fs hostname clock fullProjectDir projectDir rest
                 (AList.update (''hosts/'' @ hostname @ ''/projects/'' @ projectDir @ ''/'' @ file)
                    \<lparr>fullPath = path_join fullProjectDir file, l_size = st_size stat,
                     l_mtimeMs = st_mtimeMs stat\<rparr> files))"

text \<open>The \<open>filter\<close> over the entries of the projects directory, which calls \<open>statSync\<close>.\<close>

fun filterProjectDirs :: "filesystem \<Rightarrow> string \<Rightarrow> string list \<Rightarrow> error + string list" where
  "filterProjectDirs fs projectsDir [] = Inr []"
| "filterProjectDirs fs projectsDir (d # ds) =
     (case statSync fs (path_join projectsDir d) of
        Inl e \<Rightarrow> Inl e
      | Inr stat \<Rightarrow>
          (case filterProjectDirs fs projectsDir ds of
             Inl e \<Rightarrow> Inl e
           | Inr keep \<Rightarrow>
               Inr (if st_isDirectory stat \<and> \<not> startsWith d ''.'' then d # keep else keep)))"

fun scanProjectDirs ::
  "filesystem \<Rightarrow> string \<Rightarrow> real \<Rightarrow> string \<Rightarrow> string list
    \<Rightarrow> (string \<times> LocalFile) list \<Rightarrow> error option \<times> (string \<times> LocalFile) list" where
  "scanProjectDirs fs hostname clock projectsDir [] files = (None, files)"
| "scanProjectDirs fs hostname clock projectsDir (projectDir # rest) files =
     (case readdirSync fs (path_join projectsDir projectDir) of
        Inl e \<Rightarrow> (Some e, files)
      | Inr names \<Rightarrow>
          (case scanFiles fs hostname clock (path_join projectsDir projectDir) projectDir
                  (filter (\<lambda>f. endsWith f ''.jsonl'' \<and> \<not> startsWith f ''agent-'') names) files of
             (Some e, files') \<Rightarrow> (Some e, files')
           | (None, files') \<Rightarrow> scanProjectDirs fs hostname clock projectsDir rest files'))"

text \<open>The body of the \<open>try\<close> block for one root directory.\<close>

definition scanRoot ::
  "filesystem \<Rightarrow> string \<Rightarrow> real \<Rightarrow> string \<Rightarrow> (string \<times> LocalFile) list
    \<Rightarrow> error option \<times> (string \<times> LocalFile) list" where
  "scanRoot fs hostname clock projectsDir files =
     (case readdirSync fs projectsDir of
        Inl e \<Rightarrow> (Some e, files)
      | Inr names \<Rightarrow>
          (case filterProjectDirs fs projectsDir names of
             Inl e \<Rightarrow> (Some e, files)
           | Inr projectDirs \<Rightarrow> scanProjectDirs fs hostname clock projectsDir projectDirs files))"

fun scanClaudeDirs ::
  "filesystem \<Rightarrow> string \<Rightarrow> string \<Rightarrow> real \<Rightarrow> string list
    \<Rightarrow> (string \<times> LocalFile) list \<Rightarrow> (string \<times> LocalFile) list" where
  "scanClaudeDirs fs hostname cacheDir clock [] files = files"
| "scanClaudeDirs fs hostname cacheDir clock (dir # rest) files =
     (if dir = cacheDir then scanClaudeDirs fs hostname cacheDir clock rest files
      else if \<not> existsSync fs (path_join dir ''projects'')
      then scanClaudeDirs fs hostname cacheDir clock rest files
      else scanClaudeDirs fs hostname cacheDir clock rest
             (snd (scanRoot fs hostname clock (path_join dir ''projects'') files)))"

definition scanLocalFiles ::
  "filesystem \<Rightarrow> string \<Rightarrow> string \<Rightarrow> real \<Rightarrow> string list \<Rightarrow> (string \<times> LocalFile) list" where
  "scanLocalFiles fs hostname cacheDir clock dirs =
     scanClaudeDirs fs hostname cacheDir clock dirs []"

subsection \<open>The files the scan is about\<close>

text \<open>
  A session file under a root directory that the scan would accept: it is listed in a
  project directory (a directory whose name does not start with a dot) of the root's
  \<open>projects\<close> directory, its name ends in \<open>.jsonl\<close> and does not start with
  \<open>agent-\<close>, and it is a non-empty regular file last modified at least 30 seconds ago.
  \<open>readable\<close> says that none of the file system calls the scan makes under a root
  throws; \<open>scannedFile\<close> is the entry the scan records for a file.
\<close>

definition scannable :: "filesystem \<Rightarrow> real \<Rightarrow> string \<Rightarrow> string \<Rightarrow> string \<Rightarrow> Stats \<Rightarrow> bool" where
  "scannable fs clock dir projectDir file stat =
     (existsSync fs (path_join dir ''projects'')
      \<and> (\<exists>names. readdirSync fs (path_join dir ''projects'') = Inr names \<and> projectDir \<in> set names)
      \<and> (\<exists>ps. statSync fs (path_join (path_join dir ''projects'') projectDir) = Inr ps
            \<and> st_isDirectory ps)
      \<and> \<not> startsWith projectDir ''.''
      \<and> (\<exists>names. readdirSync fs (path_join (path_join dir ''projects'') projectDir) = Inr names
            \<and> file \<in> set names)
      \<and> statSync fs (path_join (path_join (path_join dir ''projects'') projectDir) file) = Inr stat
      \<and> endsWith file ''.jsonl'' \<and> \<not> startsWith file ''agent-''
      \<and> \<not> st_isDirectory stat \<and> st_size stat \<noteq> 0 \<and> clock - st_mtimeMs stat \<ge> 30000)"


definition scannedFile :: "string \<Rightarrow> string \<Rightarrow> string \<Rightarrow> string \<Rightarrow> Stats \<Rightarrow> string \<times> LocalFile" where
  "scannedFile hostname dir projectDir file stat =
     (''hosts/'' @ hostname @ ''/projects/'' @ projectDir @ ''/'' @ file,
      \<lparr>fullPath = path_join (path_join (path_join dir ''projects'') projectDir) file,
       l_size = st_size stat, l_mtimeMs = st_mtimeMs stat\<rparr>)"

subsection \<open>The shared history\<close>

text \<open>
  A parsed history record: \<open>entry.sessionId\<close> (absent when the record has none) and
  \<open>entry.timestamp\<close>, a number. \<open>JSON.parse\<close> is a parameter of the model; it returns
  \<open>None\<close> where it throws, or where reading \<open>sessionId\<close> off the parsed value throws.
\<close>

record HistoryEntry =
  sessionId :: "string option"
  timestamp :: real

type_synonym json_parse = "string \<Rightarrow> HistoryEntry option"

text \<open>The values of the \<open>entries\<close> map of \<open>mergeHistoryFiles\<close>.\<close>

record HistoryLine =
  line :: string
  h_timestamp :: real

text \<open>\<open>!line.trim()\<close>: the line consists of white space only.\<close>

definition isBlank :: "string \<Rightarrow> bool" where
  "isBlank l =
     list_all (\<lambda>c. c = CHR '' '' \<or> c = CHR 0x09 \<or> c = CHR 0x0A \<or> c = CHR 0x0B
                   \<or> c = CHR 0x0C \<or> c = CHR 0x0D) l"

text \<open>The loop of \<open>parseLines\<close> over the lines of one content, on the shared map.\<close>

fun parseLines ::
  "json_parse \<Rightarrow> string list \<Rightarrow> (string \<times> HistoryLine) list \<Rightarrow> (string \<times> HistoryLine) list" where
  "parseLines parse [] entries = entries"
| "parseLines parse (l # ls) entries =
     (if isBlank l then parseLines parse ls entries
      else (case parse l of
              None \<Rightarrow> parseLines parse ls entries
            | Some entry \<Rightarrow>
                (case sessionId entry of
                   None \<Rightarrow> parseLines parse ls entries
                 | Some sid \<Rightarrow>
                     if sid = [] then parseLines parse ls entries
                     else (case map_of entries sid of
                             None \<Rightarrow>
                               parseLines parse ls
                                 (AList.update sid
                                    \<lparr>line = l, h_timestamp = timestamp entry\<rparr> entries)
                           | Some existing \<Rightarrow>
                               if timestamp entry > h_timestamp existing
                               then parseLines parse ls
                                      (AList.update sid
                                         \<lparr>line = l, h_timestamp = timestamp entry\<rparr> entries)
                               else parseLines parse ls entries))))"

text \<open>The map after \<open>parseLines(localContent); parseLines(remoteContent)\<close>.\<close>

definition mergedEntries :: "json_parse \<Rightarrow> string \<Rightarrow> string \<Rightarrow> (string \<times> HistoryLine) list" where
  "mergedEntries parse localContent remoteContent =
     parseLines parse (str_split CHR 0x0A remoteContent)
       (parseLines parse (str_split CHR 0x0A localContent) [])"

text \<open>
  \<open>Array.prototype.sort\<close> is stable, and so is \<open>sort_key\<close>; the comparator
  \<open>b.timestamp - a.timestamp\<close> orders by descending timestamp.
\<close>

definition mergeHistoryFiles :: "json_parse \<Rightarrow> string \<Rightarrow> string \<Rightarrow> string" where
  "mergeHistoryFiles parse localContent remoteContent =
     (let sorted = sort_key (\<lambda>e. - h_timestamp e)
                     (map snd (mergedEntries parse localContent remoteContent))
      in str_join CHR 0x0A (map line sorted) @ [CHR 0x0A])"

text \<open>
  The loop of \<open>syncHistoryFile\<close> over the hosts, each with what the download of its
  history returns.
\<close>

fun mergeHosts :: "json_parse \<Rightarrow> string \<Rightarrow> (string \<times> (error + string)) list \<Rightarrow> string \<Rightarrow> string" where
  "mergeHosts parse hostname [] merged = merged"
| "mergeHosts parse hostname ((host, downloaded) # rest) merged =
     (if host = hostname then mergeHosts parse hostname rest merged
      else (case downloaded of
              Inl e \<Rightarrow> mergeHosts parse hostname rest merged
            | Inr remoteContent \<Rightarrow>
                mergeHosts parse hostname rest (mergeHistoryFiles parse merged remoteContent)))"

text \<open>
  \<open>syncHistoryFile\<close>: what it writes to the local history file, if anything. An upload
  that throws is caught by the enclosing \<open>try\<close>, and nothing is merged.
\<close>

definition syncHistoryFile ::
  "json_parse \<Rightarrow> string \<Rightarrow> string \<Rightarrow> error + unit \<Rightarrow> (string \<times> (error + string)) list
    \<Rightarrow> string option" where
  "syncHistoryFile parse hostname localContent uploaded hosts =
     (if localContent \<noteq> [] \<and> isl uploaded then None
      else (let merged = mergeHosts parse hostname hosts localContent
            in if merged \<noteq> localContent then Some merged else None))"

text \<open>
  The record a line contributes to the map, if any: blank lines, lines that do not parse
  and lines without a (non-empty) \<open>sessionId\<close> contribute none. \<open>put\<close> is the conditional
  \<open>entries.set\<close>, and \<open>validEntries\<close> are the records of a content in scan order.
\<close>

definition entryOf :: "json_parse \<Rightarrow> string \<Rightarrow> (string \<times> HistoryLine) option" where
  "entryOf parse l =
     (if isBlank l then None
      else (case parse l of
              None \<Rightarrow> None
            | Some entry \<Rightarrow>
                (case sessionId entry of
                   None \<Rightarrow> None
                 | Some sid \<Rightarrow>
                     if sid = [] then None
                     else Some (sid, \<lparr>line = l, h_timestamp = timestamp entry\<rparr>))))"

definition put :: "string \<times> HistoryLine \<Rightarrow> (string \<times> HistoryLine) list \<Rightarrow> (string \<times> HistoryLine) list"
  where
  "put e entries =
     (case map_of entries (fst e) of
        None \<Rightarrow> AList.update (fst e) (snd e) entries
      | Some existing \<Rightarrow>
          if h_timestamp (snd e) > h_timestamp existing
          then AList.update (fst e) (snd e) entries
          else entries)"

definition validEntries :: "json_parse \<Rightarrow> string \<Rightarrow> (string \<times> HistoryLine) list" where
  "validEntries parse content = List.map_filter (entryOf parse) (str_split CHR 0x0A content)"

text \<open>
  A record is dominated by a map when the map holds, for the record's session, a record
  with a timestamp at least as great: such a record never replaces what the map holds.
\<close>

definition dominated :: "(string \<times> HistoryLine) list \<Rightarrow> string \<times> HistoryLine \<Rightarrow> bool" where
  "dominated entries e =
     (\<exists>w. map_of entries (fst e) = Some w \<and> h_timestamp (snd e) \<le> h_timestamp w)"

text \<open>
  Every record of the map is the record of its own line, and no line holds a line feed.
\<close>

definition wellFormed :: "json_parse \<Rightarrow> (string \<times> HistoryLine) list \<Rightarrow> bool" where
  "wellFormed parse entries =
     (\<forall>e \<in> set entries. entryOf parse (line (snd e)) = Some e \<and> CHR 0x0A \<notin> set (line (snd e)))"

text \<open>The map after parsing one content alone.\<close>

definition historyEntries :: "json_parse \<Rightarrow> string \<Rightarrow> (string \<times> HistoryLine) list" where
  "historyEntries parse content = parseLines parse (str_split CHR 0x0A content) []"

subsection \<open>The shared session names\<close>

text \<open>
  A parsed JSON object is the list of its properties in order, with distinct keys.
  \<open>JSON.parse\<close> (\<open>None\<close> where it throws) and \<open>JSON.stringify\<close> are parameters.
  \<open>{...local, ...remote}\<close> copies the properties of \<open>local\<close> and then sets those of
  \<open>remote\<close>.
\<close>

type_synonym names = "(string \<times> string) list"




subsection \<open>\<open>deleteRemote\<close>\<close>

text \<open>\<open>filePath.replace(/\\/g, '/')\<close>.\<close>

definition toSlashes :: "string \<Rightarrow> string" where
  "toSlashes s = map (\<lambda>c. if c = CHR 0x5C then CHR ''/'' else c) s"

text \<open>
  The relative path \<open>deleteRemote\<close> builds from the last two segments of the file path;
  an index before the start of \<open>parts\<close> reads \<open>undefined\<close>.
\<close>

definition deletePath :: "string \<Rightarrow> string \<Rightarrow> string" where
  "deletePath hostname filePath =
     (let parts = str_split CHR ''/'' (toSlashes filePath);
          fileName = last parts;
          projectDir = (if 2 \<le> length parts then parts ! (length parts - 2) else ''undefined'')
      in ''hosts/'' @ hostname @ ''/projects/'' @ projectDir @ ''/'' @ fileName)"

text \<open>
  The state \<open>deleteRemote\<close> works on: the client (if one could be initialised), the
  manifest and the set of paths that exist on the local disk.
\<close>

record sync_state =
  theClient :: "client option"
  theManifest :: manifest
  disk :: "string set"

definition deleteRemote :: "server \<Rightarrow> string \<Rightarrow> string \<Rightarrow> string \<Rightarrow> sync_state \<Rightarrow> sync_state" where
  "deleteRemote srv hostname cacheDir filePath s =
     (case theClient s of
        None \<Rightarrow> s
      | Some st \<Rightarrow>
          (let rel = deletePath hostname filePath;
               st' = snd (delete srv (''/'' @ rel) st);
               cachePath = path_join cacheDir rel
           in \<lparr>theClient = Some st',
               theManifest = removeEntry (theManifest s) rel,
               disk = (if cachePath \<in> disk s then disk s - {cachePath} else disk s)\<rparr>))"

subsection \<open>The requests that change the remote store\<close>

definition hostPrefix :: "string \<Rightarrow> string" where
  "hostPrefix hostname = ''/hosts/'' @ hostname"

text \<open>
  \<open>path.dirname\<close> on a relative path with separators: what stands before the last one.
\<close>

definition dirname :: "string \<Rightarrow> string" where
  "dirname p =
     (let parts = str_split CHR ''/'' p
      in if length parts \<le> 1 then ''.'' else str_join CHR ''/'' (butlast parts))"

text \<open>
  The client calls of \<open>uploadFile\<close>, \<open>readFileSync\<close> being what reading a local file
  returns: the parent directory is created, the file is read, then it is uploaded. The
  first error ends it and is thrown again.
\<close>

definition uploadFile ::
  "server \<Rightarrow> (string \<Rightarrow> error + string) \<Rightarrow> FileChange \<Rightarrow> client \<Rightarrow> (error + unit) \<times> client"
  where
  "uploadFile srv readFileSync change st =
     (case localPath change of
        None \<Rightarrow> (Inr (), st)
      | Some lp \<Rightarrow>
          (case mkdirp srv (''/'' @ dirname (relativePath change)) st of
             (Inl e, st1) \<Rightarrow> (Inl e, st1)
           | (Inr u, st1) \<Rightarrow>
               (case readFileSync lp of
                  Inl e \<Rightarrow> (Inl e, st1)
                | Inr bytes \<Rightarrow> upload srv (''/'' @ relativePath change) st1)))"

text \<open>The upload loop of \<open>performSync\<close>: the first upload that throws ends the sync.\<close>

fun uploadFiles ::
  "server \<Rightarrow> (string \<Rightarrow> error + string) \<Rightarrow> FileChange list \<Rightarrow> client
    \<Rightarrow> (error + unit) \<times> client" where
  "uploadFiles srv readFileSync [] st = (Inr (), st)"
| "uploadFiles srv readFileSync (change # rest) st =
     (case uploadFile srv readFileSync change st of
        (Inl e, st1) \<Rightarrow> (Inl e, st1)
      | (Inr u, st1) \<Rightarrow> uploadFiles srv readFileSync rest st1)"

text \<open>
  The places where the sync service calls a method of the client that changes the remote
  store: the first step of \<open>performSync\<close>; its upload loop, over the changes computed
  from the local scan, the manifest and the remote files of this host;
  \<open>uploadMachineDescriptor\<close>; the upload of \<open>syncHistoryFile\<close>; the uploads of
  \<open>syncSessionNames\<close>; and \<open>deleteRemote\<close>.
\<close>

datatype write_step =
    Prepare
  | Uploads filesystem string real "string list" manifest "(string \<times> WebDavFileInfo) list"
      "string \<Rightarrow> error + string"
  | MachineDescriptor
  | HistoryUpload
  | NamesUpload
  | DeleteRemote string

fun runWrite :: "server \<Rightarrow> string \<Rightarrow> write_step \<Rightarrow> client \<Rightarrow> client" where
  "runWrite srv hostname Prepare st = snd (mkdirp srv (hostPrefix hostname @ ''/projects'') st)"
| "runWrite srv hostname (Uploads fs cacheDir clock dirs mf myRemoteFiles readFileSync) st =
     snd (uploadFiles srv readFileSync
       (computeUploadChanges mf (scanLocalFiles fs hostname cacheDir clock dirs) myRemoteFiles) st)"
| "runWrite srv hostname MachineDescriptor st =
     snd (upload srv (hostPrefix hostname @ ''/machine.json'') st)"
| "runWrite srv hostname HistoryUpload st =
     snd (upload srv (hostPrefix hostname @ ''/history.jsonl'') st)"
| "runWrite srv hostname NamesUpload st = snd (upload srv ''/session-names.json'' st)"
| "runWrite srv hostname (DeleteRemote filePath) st =
     snd (delete srv (''/'' @ deletePath hostname filePath) st)"

text \<open>A path at or below this machine's host prefix.\<close>

definition underOwnPrefix :: "string \<Rightarrow> string \<Rightarrow> bool" where
  "underOwnPrefix hostname p =
     (p = hostPrefix hostname \<or> startsWith p (hostPrefix hostname @ ''/''))"

text \<open>
  The events of a log are backoffs, uploads under the own prefix or of the shared names
  document, deletions under the own prefix, and creations of directories among \<open>dirs\<close>.
\<close>

definition ownWrites :: "string \<Rightarrow> string set \<Rightarrow> event list \<Rightarrow> bool" where
  "ownWrites hostname dirs es =
     list_all (\<lambda>e. case e of
         Backoff d \<Rightarrow> True
       | Sent m p \<Rightarrow>
           (m = ''PUT'' \<and> (underOwnPrefix hostname p \<or> p = ''/session-names.json''))
           \<or> (m = ''DELETE'' \<and> underOwnPrefix hostname p)
           \<or> (m = ''MKCOL'' \<and> p \<in> dirs)) es"

section \<open>Example inputs\<close>

text \<open>A remote store with two hosts, and a disk with nothing on it.\<close>

definition exampleLister :: lister where
  "exampleLister p =
     (if p = ''/hosts'' then
        Inr [\<lparr>path = ''H1/'', f_size = 0, lastModified = 0, isDirectory = True\<rparr>,
             \<lparr>path = ''H2/'', f_size = 0, lastModified = 0, isDirectory = True\<rparr>]
      else if p = ''/hosts/H1/projects'' then
        Inr [\<lparr>path = ''p1/'', f_size = 0, lastModified = 0, isDirectory = True\<rparr>]
      else if p = ''/hosts/H1/projects/p1'' then
        Inr [\<lparr>path = ''s1.jsonl'', f_size = 500, lastModified = 5000, isDirectory = False\<rparr>]
      else if p = ''/hosts/H2/projects'' then
        Inr [\<lparr>path = ''p2/'', f_size = 0, lastModified = 0, isDirectory = True\<rparr>]
      else if p = ''/hosts/H2/projects/p2'' then
        Inr [\<lparr>path = ''s2.jsonl'', f_size = 700, lastModified = 9000, isDirectory = False\<rparr>,
             \<lparr>path = ''agent-7.jsonl'', f_size = 5, lastModified = 9000, isDirectory = False\<rparr>,
             \<lparr>path = ''notes.txt'', f_size = 5, lastModified = 9000, isDirectory = False\<rparr>]
      else Inl NetworkError)"

definition emptyDisk :: filesystem where
  "emptyDisk = \<lparr>existsSync = (\<lambda>p. False), readdirSync = (\<lambda>p. Inl FsError),
     statSync = (\<lambda>p. Inl FsError)\<rparr>"




text \<open>
  A stand-in for \<open>JSON.parse\<close> on four sample lines: three records of the sessions
  \<open>a\<close> and \<open>b\<close>, one record without a session identifier; every other line is
  rejected.
\<close>

definition sampleParse :: json_parse where
  "sampleParse l =
     (if l = ''a 1'' then Some \<lparr>sessionId = Some ''a'', timestamp = 1\<rparr>
      else if l = ''a 3'' then Some \<lparr>sessionId = Some ''a'', timestamp = 3\<rparr>
      else if l = ''b 2'' then Some \<lparr>sessionId = Some ''b'', timestamp = 2\<rparr>
      else if l = ''? 9'' then Some \<lparr>sessionId = None, timestamp = 9\<rparr>
      else None)"




section \<open>Lemmas\<close>

subsection \<open>The request loop\<close>

lemma throttle_fields [simp]:
  "minInterval (throttle st) = minInterval st"
  "sent (throttle st) = sent st"
  "trace (throttle st) = trace st"
  "knownDirs (throttle st) = knownDirs st"
  by (simp_all add: throttle_def sleep_def Let_def)

lemma throttle_pace: "lastRequestTime st + minInterval st \<le> now (throttle st)"
  by (simp add: throttle_def sleep_def Let_def)

lemma throttle_last: "lastRequestTime (throttle st) = now (throttle st)"
  by (simp add: throttle_def sleep_def Let_def)

lemma slowDown_fields [simp]:
  "minInterval (slowDown a st) = min (minInterval st * 2) 10000"
  "sent (slowDown a st) = sent st"
  "trace (slowDown a st) = trace st @ [Backoff (min (3000 * 2 ^ a) 30000)]"
  "knownDirs (slowDown a st) = knownDirs st"
  by (simp_all add: slowDown_def sleep_def Let_def)

lemma fetch_simps [simp]:
  "fst (fetch srv m p st) = srv (sent st) m p"
  "minInterval (snd (fetch srv m p st)) = minInterval st"
  "sent (snd (fetch srv m p st)) = Suc (sent st)"
  "trace (snd (fetch srv m p st)) = trace st @ [Sent m p]"
  "knownDirs (snd (fetch srv m p st)) = knownDirs st"
  by (simp_all add: fetch_def)

lemma min_double_cap:
  fixes x :: int
  assumes "1 \<le> n"
  shows "min (min (x * 2) 10000 * n) 10000 = min (x * 2 * n) 10000"
proof (cases "x * 2 \<le> 10000")
  case True then show ?thesis by simp
next
  case False
  have a: "min (x * 2) 10000 = 10000" using False by simp
  have b: "min (10000 * n) 10000 = 10000" using assms by simp
  have "x * 2 * 1 \<le> x * 2 * n"
    by (rule mult_left_mono) (use assms False in auto)
  then have "10000 < x * 2 * n" using False by linarith
  then have c: "min (x * 2 * n) 10000 = 10000" by linarith
  show ?thesis by (simp only: a b c)
qed

lemma retryEvents_0 [simp]: "retryEvents m p a 0 = []"
  by (simp add: retryEvents_def)

lemma retryEvents_Suc:
  "retryEvents m p a (Suc k) =
     [Sent m p, Backoff (min (3000 * 2 ^ a) 30000)] @ retryEvents m p (Suc a) k"
proof -
  have "[0..<Suc k] = 0 # map Suc [0..<k]"
    by (simp add: upt_conv_Cons map_Suc_upt del: upt_Suc)
  then show ?thesis
    by (simp add: retryEvents_def comp_def del: upt_Suc)
qed

lemma request_loop_503s:
  assumes "\<forall>i<k. srv (sent st + i) m p = Inr 503"
    and "a + k \<le> mx"
    and "a + k = mx \<or> srv (sent st + k) m p \<noteq> Inr 503"
  shows "fst (request_loop srv m p mx a st) = srv (sent st + k) m p
    \<and> sent (snd (request_loop srv m p mx a st)) = Suc (sent st + k)
    \<and> minInterval (snd (request_loop srv m p mx a st)) =
        (if k = 0 then minInterval st else min (minInterval st * 2 ^ k) 10000)
    \<and> trace (snd (request_loop srv m p mx a st)) =
        trace st @ retryEvents m p a k @ [Sent m p]
    \<and> knownDirs (snd (request_loop srv m p mx a st)) = knownDirs st"
  using assms
proof (induction k arbitrary: a st)
  case 0
  obtain r st2 where f: "fetch srv m p (throttle st) = (r, st2)" by (cases "fetch srv m p (throttle st)")
  have r: "srv (sent st) m p = r" using f fetch_simps(1)[of srv m p "throttle st"] by simp
  have s2: "sent st2 = Suc (sent st)" "minInterval st2 = minInterval st"
    "trace st2 = trace st @ [Sent m p]" "knownDirs st2 = knownDirs st"
    using f fetch_simps(2-5)[of srv m p "throttle st"] by simp_all
  show ?case
  proof (cases r)
    case (Inl e)
    then show ?thesis using 0 f r s2 by (simp add: request_loop.simps[of srv m p mx a st])
  next
    case (Inr status)
    then have "\<not> (status = 503 \<and> a < mx)" using 0 r by auto
    then have "request_loop srv m p mx a st = (Inr status, st2)"
      using 0 f r Inr by (auto simp add: request_loop.simps[of srv m p mx a st])
    then show ?thesis using r s2 Inr by simp
  qed
next
  case (Suc k)
  obtain r st2 where f: "fetch srv m p (throttle st) = (r, st2)" by (cases "fetch srv m p (throttle st)")
  have r: "r = Inr 503" using f fetch_simps(1)[of srv m p "throttle st"] Suc.prems(1) by auto
  have rr: "srv (sent st) m p = Inr 503" using Suc.prems(1) by auto
  have s2: "sent st2 = Suc (sent st)" "minInterval st2 = minInterval st"
    "trace st2 = trace st @ [Sent m p]" "knownDirs st2 = knownDirs st"
    using f fetch_simps(2-5)[of srv m p "throttle st"] by simp_all
  have a: "a < mx" "a \<le> mx" using Suc.prems(2) by simp_all
  have step: "request_loop srv m p mx a st = request_loop srv m p mx (Suc a) (slowDown a st2)"
    using f r rr a by (simp add: request_loop.simps[of srv m p mx a st])
  have p1: "\<forall>i<k. srv (sent (slowDown a st2) + i) m p = Inr 503"
    using Suc.prems(1) s2 by auto
  have p2: "Suc a + k \<le> mx" using Suc.prems(2) by simp
  have p3: "Suc a + k = mx \<or> srv (sent (slowDown a st2) + k) m p \<noteq> Inr 503"
    using Suc.prems(3) s2 by simp
  note IH = Suc.IH[OF p1 p2 p3]
  have mi: "min (min (minInterval st * 2) 10000 * 2 ^ k) 10000
            = min (minInterval st * 2 ^ Suc k) 10000"
    using min_double_cap[of "2 ^ k" "minInterval st"] by (simp add: mult.assoc)
  have mi': "(if k = 0 then minInterval (slowDown a st2)
              else min (minInterval (slowDown a st2) * 2 ^ k) 10000)
            = min (minInterval st * 2 ^ Suc k) 10000"
  proof (cases "k = 0")
    case True then show ?thesis by (simp add: s2)
  next
    case False then show ?thesis using mi by (simp add: s2)
  qed
  have tr: "trace (slowDown a st2) @ retryEvents m p (Suc a) k @ [Sent m p]
            = trace st @ retryEvents m p a (Suc k) @ [Sent m p]"
    by (simp add: s2 retryEvents_Suc)
  have se: "sent (slowDown a st2) + k = sent st + Suc k" by (simp add: s2)
  show ?case
    unfolding step using IH unfolding mi' tr se by (simp add: s2)
qed

lemma throttle_now: "now (throttle st) = max (now st) (lastRequestTime st + minInterval st)"
  by (simp add: throttle_def sleep_def Let_def)

lemma fetch_clock [simp]:
  "now (snd (fetch srv m p st)) = now st"
  "lastRequestTime (snd (fetch srv m p st)) = lastRequestTime st"
  by (simp_all add: fetch_def)

lemma slowDown_clock [simp]:
  "now (slowDown a st) = now st + min (3000 * 2 ^ a) 30000"
  "lastRequestTime (slowDown a st) = lastRequestTime st"
  by (simp_all add: slowDown_def sleep_def Let_def)

lemma request_loop_clock:
  assumes "\<forall>i<k. srv (sent st + i) m p = Inr 503"
    and "a + k \<le> mx"
    and "a + k = mx \<or> srv (sent st + k) m p \<noteq> Inr 503"
  shows "lastRequestTime (snd (request_loop srv m p mx a st)) =
        max (now st) (lastRequestTime st + minInterval st)
        + (\<Sum>i<k. max (min (3000 * 2 ^ (a + i)) 30000) (min (minInterval st * 2 ^ Suc i) 10000))
    \<and> now (snd (request_loop srv m p mx a st))
        = lastRequestTime (snd (request_loop srv m p mx a st))"
  using assms
proof (induction k arbitrary: a st)
  case 0
  obtain r st2 where f: "fetch srv m p (throttle st) = (r, st2)"
    by (cases "fetch srv m p (throttle st)")
  have r: "srv (sent st) m p = r" using f fetch_simps(1)[of srv m p "throttle st"] by simp
  have s2: "now st2 = now (throttle st)" "lastRequestTime st2 = now (throttle st)"
    using f fetch_clock[of srv m p "throttle st"] throttle_last[of st] by simp_all
  show ?case
  proof (cases r)
    case (Inl e)
    then show ?thesis
      using 0 f s2 by (simp add: request_loop.simps[of srv m p mx a st] throttle_now)
  next
    case (Inr status)
    then have "\<not> (status = 503 \<and> a < mx)" using 0 r by auto
    then have "request_loop srv m p mx a st = (Inr status, st2)"
      using 0 f r Inr by (auto simp add: request_loop.simps[of srv m p mx a st])
    then show ?thesis using s2 by (simp add: throttle_now)
  qed
next
  case (Suc k)
  obtain r st2 where f: "fetch srv m p (throttle st) = (r, st2)"
    by (cases "fetch srv m p (throttle st)")
  have r: "r = Inr 503" using f fetch_simps(1)[of srv m p "throttle st"] Suc.prems(1) by auto
  have rr: "srv (sent st) m p = Inr 503" using Suc.prems(1) by auto
  have s2: "sent st2 = Suc (sent st)" "minInterval st2 = minInterval st"
    using f fetch_simps(2,3)[of srv m p "throttle st"] by simp_all
  have c2: "now st2 = now (throttle st)" "lastRequestTime st2 = now (throttle st)"
    using f fetch_clock[of srv m p "throttle st"] throttle_last[of st] by simp_all
  have a: "a < mx" "a \<le> mx" using Suc.prems(2) by simp_all
  have step: "request_loop srv m p mx a st = request_loop srv m p mx (Suc a) (slowDown a st2)"
    using f r rr a by (simp add: request_loop.simps[of srv m p mx a st])
  have p1: "\<forall>i<k. srv (sent (slowDown a st2) + i) m p = Inr 503"
    using Suc.prems(1) s2 by auto
  have p2: "Suc a + k \<le> mx" using Suc.prems(2) by simp
  have p3: "Suc a + k = mx \<or> srv (sent (slowDown a st2) + k) m p \<noteq> Inr 503"
    using Suc.prems(3) s2 by simp
  note IH = Suc.IH[OF p1 p2 p3]
  let ?t0 = "max (now st) (lastRequestTime st + minInterval st)"
  let ?d = "\<lambda>i. min (3000 * 2 ^ i) (30000::int)"
  let ?mi = "\<lambda>i. min (minInterval st * 2 ^ i) (10000::int)"
  have mi: "\<And>i. min (min (minInterval st * 2) 10000 * 2 ^ Suc i) 10000 = ?mi (Suc (Suc i))"
  proof -
    fix i :: nat
    have "(1::int) \<le> 2 ^ Suc i" by (rule one_le_power) simp
    from min_double_cap[OF this, of "minInterval st"]
    show "min (min (minInterval st * 2) 10000 * 2 ^ Suc i) 10000 = ?mi (Suc (Suc i))"
      by (simp add: mult.assoc)
  qed
  have start: "max (now (slowDown a st2))
        (lastRequestTime (slowDown a st2) + minInterval (slowDown a st2))
      = ?t0 + max (?d a) (?mi (Suc 0))"
    by (simp add: c2 s2 throttle_now max_add_distrib_right)
  have sum: "(\<Sum>i<k. max (?d (Suc a + i)) (min (minInterval (slowDown a st2) * 2 ^ Suc i) 10000))
      = (\<Sum>i<k. max (?d (a + Suc i)) (?mi (Suc (Suc i))))"
    unfolding slowDown_fields(1) s2(2) mi by simp
  have shift: "(\<Sum>i<Suc k. max (?d (a + i)) (?mi (Suc i)))
      = max (?d a) (?mi (Suc 0)) + (\<Sum>i<k. max (?d (a + Suc i)) (?mi (Suc (Suc i))))"
    by (subst sum.lessThan_Suc_shift) simp
  have l: "lastRequestTime (snd (request_loop srv m p mx (Suc a) (slowDown a st2)))
      = ?t0 + (\<Sum>i<Suc k. max (?d (a + i)) (?mi (Suc i)))"
    using IH[THEN conjunct1] unfolding start sum shift by simp
  show ?case unfolding step using l IH[THEN conjunct2] by simp
qed

lemma request_loop_paced:
  "a \<le> mx \<Longrightarrow>
   lastRequestTime st + minInterval st \<le> lastRequestTime (snd (request_loop srv m p mx a st))
   \<and> now st \<le> lastRequestTime (snd (request_loop srv m p mx a st))
   \<and> lastRequestTime (snd (request_loop srv m p mx a st))
       \<le> now (snd (request_loop srv m p mx a st))"
proof (induction srv m p mx a st rule: request_loop.induct)
  case (1 srv m p mx a st)
  obtain r st2 where f: "fetch srv m p (throttle st) = (r, st2)"
    by (cases "fetch srv m p (throttle st)")
  have c2: "now st2 = now (throttle st)" "lastRequestTime st2 = now (throttle st)"
    "minInterval st2 = minInterval st"
    using f fetch_clock[of srv m p "throttle st"] throttle_last[of st]
      fetch_simps(2)[of srv m p "throttle st"] by simp_all
  have t: "lastRequestTime st + minInterval st \<le> now (throttle st)" "now st \<le> now (throttle st)"
    by (simp_all add: throttle_now)
  show ?case
  proof (cases r)
    case (Inl e)
    then show ?thesis
      using 1(2) f c2 t by (simp add: request_loop.simps[of srv m p mx a st])
  next
    case (Inr status)
    show ?thesis
    proof (cases "status = 503 \<and> a < mx")
      case False
      then have "request_loop srv m p mx a st = (Inr status, st2)"
        using 1(2) f Inr by (auto simp add: request_loop.simps[of srv m p mx a st])
      then show ?thesis using c2 t by simp
    next
      case True
      have step: "request_loop srv m p mx a st
          = request_loop srv m p mx (Suc a) (slowDown a st2)"
        using 1(2) f Inr True by (simp add: request_loop.simps[of srv m p mx a st])
      have sa: "Suc a \<le> mx" using True by simp
      note IH = 1(1)[OF 1(2) f[symmetric] Inr True sa]
      have d: "(0::int) \<le> min (3000 * 2 ^ a) 30000" by simp
      have "now st2 \<le> now (slowDown a st2)" using d by simp
      then have "now (throttle st) \<le> lastRequestTime (snd (request_loop srv m p mx (Suc a) (slowDown a st2)))"
        using IH c2 by linarith
      then show ?thesis unfolding step using IH t by linarith
    qed
  qed
qed

lemma request_loop_interval:
  "0 \<le> minInterval st \<Longrightarrow> minInterval st \<le> 10000 \<Longrightarrow>
   minInterval st \<le> minInterval (snd (request_loop srv m p mx a st))
   \<and> minInterval (snd (request_loop srv m p mx a st)) \<le> 10000"
proof (induction srv m p mx a st rule: request_loop.induct)
  case (1 srv m p mx a st)
  show ?case
  proof (cases "a \<le> mx")
    case False
    then show ?thesis using 1(2,3) by (simp add: request_loop.simps[of srv m p mx a st])
  next
    case le: True
    obtain r st2 where f: "fetch srv m p (throttle st) = (r, st2)"
      by (cases "fetch srv m p (throttle st)")
    have c2: "minInterval st2 = minInterval st"
      using f fetch_simps(2)[of srv m p "throttle st"] by simp
    show ?thesis
    proof (cases r)
      case (Inl e)
      then show ?thesis
        using le f c2 1(2,3) by (simp add: request_loop.simps[of srv m p mx a st])
    next
      case (Inr status)
      show ?thesis
      proof (cases "status = 503 \<and> a < mx")
        case False
        then have "request_loop srv m p mx a st = (Inr status, st2)"
          using le f Inr by (auto simp add: request_loop.simps[of srv m p mx a st])
        then show ?thesis using c2 1(2,3) by simp
      next
        case True
        have step: "request_loop srv m p mx a st
            = request_loop srv m p mx (Suc a) (slowDown a st2)"
          using le f Inr True by (simp add: request_loop.simps[of srv m p mx a st])
        have b: "0 \<le> minInterval (slowDown a st2)" "minInterval (slowDown a st2) \<le> 10000"
          "minInterval st \<le> minInterval (slowDown a st2)"
          using 1(2,3) c2 by simp_all
        note IH = 1(1)[OF le f[symmetric] Inr True b(1,2)]
        show ?thesis unfolding step using IH b(3) by linarith
      qed
    qed
  qed
qed

subsection \<open>Directory creation\<close>

lemma request_loop_shape:
  "knownDirs (snd (request_loop srv m p mx a st)) = knownDirs st
   \<and> (\<exists>es. trace (snd (request_loop srv m p mx a st)) = trace st @ es
          \<and> set es \<subseteq> insert (Sent m p) (range Backoff))"
proof (induction srv m p mx a st rule: request_loop.induct)
  case (1 srv m p mx a st)
  obtain r st2 where f: "fetch srv m p (throttle st) = (r, st2)"
    by (cases "fetch srv m p (throttle st)")
  have s2: "trace st2 = trace st @ [Sent m p]" "knownDirs st2 = knownDirs st"
    using f fetch_simps(4,5)[of srv m p "throttle st"] by simp_all
  show ?case
  proof (cases "a \<le> mx")
    case False
    then show ?thesis by (simp add: request_loop.simps[of srv m p mx a st])
  next
    case True
    show ?thesis
    proof (cases r)
      case (Inl e)
      then have "request_loop srv m p mx a st = (Inl e, st2)"
        using True f by (simp add: request_loop.simps[of srv m p mx a st])
      then show ?thesis using s2 by simp
    next
      case (Inr status)
      show ?thesis
      proof (cases "status = 503 \<and> a < mx")
        case False
        then have "request_loop srv m p mx a st = (Inr status, st2)"
          using True f Inr by (auto simp add: request_loop.simps[of srv m p mx a st])
        then show ?thesis using s2 by simp
      next
        case c: True
        have step: "request_loop srv m p mx a st
                    = request_loop srv m p mx (Suc a) (slowDown a st2)"
          using True f Inr c by (simp add: request_loop.simps[of srv m p mx a st])
        from "1.IH"[OF True f[symmetric] Inr c]
        obtain es where es: "trace (snd (request_loop srv m p mx (Suc a) (slowDown a st2)))
              = trace (slowDown a st2) @ es" "set es \<subseteq> insert (Sent m p) (range Backoff)"
          and kd: "knownDirs (snd (request_loop srv m p mx (Suc a) (slowDown a st2)))
              = knownDirs (slowDown a st2)"
          by blast
        have "trace (snd (request_loop srv m p mx a st))
              = trace st @ ([Sent m p, Backoff (min (3000 * 2 ^ a) 30000)] @ es)"
          using es(1) s2 by (simp add: step)
        moreover have "set ([Sent m p, Backoff (min (3000 * 2 ^ a) 30000)] @ es)
              \<subseteq> insert (Sent m p) (range Backoff)"
          using es(2) by auto
        ultimately show ?thesis using kd s2 unfolding step by (simp del: append.simps)
      qed
    qed
  qed
qed

lemma request_shape:
  "knownDirs (snd (request srv m p r st)) = knownDirs st
   \<and> (\<exists>es. trace (snd (request srv m p r st)) = trace st @ es
          \<and> set es \<subseteq> insert (Sent m p) (range Backoff))"
  unfolding request_def by (rule request_loop_shape)

lemma request_once:
  assumes "srv (sent st) m p \<noteq> Inr 503"
  shows "fst (request srv m p None st) = srv (sent st) m p
    \<and> trace (snd (request srv m p None st)) = trace st @ [Sent m p]
    \<and> knownDirs (snd (request srv m p None st)) = knownDirs st"
proof -
  have a: "\<forall>i<(0::nat). srv (sent st + i) m p = Inr 503" by simp
  have b: "0 + (0::nat) \<le> 3" by simp
  have c: "0 + 0 = (3::nat) \<or> srv (sent st + 0) m p \<noteq> Inr 503" using assms by simp
  show ?thesis
    unfolding request_def using request_loop_503s[of 0 srv st m p 0 3, OF a b c] by simp
qed

lemma mkdir_shape:
  "knownDirs (snd (mkdir srv p st)) = knownDirs st
   \<and> (\<exists>es. trace (snd (mkdir srv p st)) = trace st @ es
          \<and> set es \<subseteq> insert (Sent ''MKCOL'' p) (range Backoff))"
  using request_shape[of srv "''MKCOL''" p None st]
  by (auto simp add: mkdir_def split: prod.split sum.split)

lemma upload_shape:
  "knownDirs (snd (upload srv p st)) = knownDirs st
   \<and> (\<exists>es. trace (snd (upload srv p st)) = trace st @ es
          \<and> set es \<subseteq> insert (Sent ''PUT'' p) (range Backoff))"
  using request_shape[of srv "''PUT''" p None st]
  by (auto simp add: upload_def split: prod.split sum.split)

lemma delete_shape:
  "knownDirs (snd (delete srv p st)) = knownDirs st
   \<and> (\<exists>es. trace (snd (delete srv p st)) = trace st @ es
          \<and> set es \<subseteq> insert (Sent ''DELETE'' p) (range Backoff))"
  using request_shape[of srv "''DELETE''" p None st]
  by (auto simp add: delete_def split: prod.split sum.split)

lemma exists_path_shape:
  "knownDirs (snd (exists_path srv p st)) = knownDirs st
   \<and> (\<exists>es. trace (snd (exists_path srv p st)) = trace st @ es
          \<and> set es \<subseteq> insert (Sent ''PROPFIND'' p) (range Backoff))"
  using request_shape[of srv "''PROPFIND''" p None st]
  by (auto simp add: exists_path_def split: prod.split sum.split)

lemma mkdir_result:
  "fst (mkdir srv p st) =
     (case fst (request srv ''MKCOL'' p None st) of
        Inl e \<Rightarrow> Inl e
      | Inr status \<Rightarrow>
          if status = 201 \<or> status = 405 \<or> status < 400 then Inr ()
          else Inl (MkdirFailed status))"
  by (auto simp add: mkdir_def split: prod.split sum.split)

lemma ancestorsFrom_longer:
  "d \<in> set (ancestorsFrom c parts) \<Longrightarrow> length c < length d"
  by (induction parts arbitrary: c) fastforce+

lemma distinct_ancestorsFrom: "distinct (ancestorsFrom c parts)"
  by (induction parts arbitrary: c) (auto dest: ancestorsFrom_longer)


lemma mkcolOnly_append [simp]: "mkcolOnly ds (a @ b) = (mkcolOnly ds a \<and> mkcolOnly ds b)"
  by (simp add: mkcolOnly_def)

lemma mkcolOnly_mono: "mkcolOnly ds es \<Longrightarrow> ds \<subseteq> ds' \<Longrightarrow> mkcolOnly ds' es"
  unfolding mkcolOnly_def list_all_iff by (auto split: event.splits)

lemma mkcolOnly_single:
  "set es \<subseteq> insert (Sent ''MKCOL'' p) (range Backoff) \<Longrightarrow> mkcolOnly {p} es"
  unfolding mkcolOnly_def list_all_iff by (auto split: event.splits)

lemma mkdirp_loop_shape:
  "knownDirs st \<subseteq> knownDirs (snd (mkdirp_loop srv c parts st))
   \<and> knownDirs (snd (mkdirp_loop srv c parts st)) \<subseteq> knownDirs st \<union> set (ancestorsFrom c parts)
   \<and> (fst (mkdirp_loop srv c parts st) = Inr ()
        \<longrightarrow> set (ancestorsFrom c parts) \<subseteq> knownDirs (snd (mkdirp_loop srv c parts st)))
   \<and> (\<exists>es. trace (snd (mkdirp_loop srv c parts st)) = trace st @ es
          \<and> mkcolOnly (set (ancestorsFrom c parts) - knownDirs st) es)"
proof (induction parts arbitrary: c st)
  case Nil
  then show ?case by (simp add: mkcolOnly_def)
next
  case (Cons part parts)
  let ?c = "c @ ''/'' @ part"
  let ?A = "set (ancestorsFrom c (part # parts))"
  have anc: "?A = insert ?c (set (ancestorsFrom ?c parts))" by simp
  show ?case
  proof (cases "?c \<in> knownDirs st")
    case True
    then have step: "mkdirp_loop srv c (part # parts) st = mkdirp_loop srv ?c parts st"
      by (simp add: Let_def)
    let ?R = "mkdirp_loop srv ?c parts st"
    note IH = Cons.IH[where c="?c" and st=st]
    have i1: "knownDirs st \<subseteq> knownDirs (snd ?R)" using IH by (rule conjunct1)
    have i2: "knownDirs (snd ?R) \<subseteq> knownDirs st \<union> set (ancestorsFrom ?c parts)"
      using IH by (elim conjE)
    have i3: "fst ?R = Inr () \<longrightarrow> set (ancestorsFrom ?c parts) \<subseteq> knownDirs (snd ?R)"
      using IH by (elim conjE)
    have i4: "\<exists>es. trace (snd ?R) = trace st @ es
          \<and> mkcolOnly (set (ancestorsFrom ?c parts) - knownDirs st) es"
      using IH by (elim conjE)
    from i4 obtain es where
      es: "trace (snd ?R) = trace st @ es"
        "mkcolOnly (set (ancestorsFrom ?c parts) - knownDirs st) es"
      by (elim exE conjE)
    have "set (ancestorsFrom ?c parts) - knownDirs st \<subseteq> ?A - knownDirs st"
      unfolding anc by blast
    from mkcolOnly_mono[OF es(2) this]
    have ex: "\<exists>es. trace (snd ?R) = trace st @ es \<and> mkcolOnly (?A - knownDirs st) es"
      using es(1) by (intro exI[of _ es] conjI)
    have k2: "knownDirs (snd ?R) \<subseteq> knownDirs st \<union> ?A"
      using i2 unfolding anc by blast
    have k3: "fst ?R = Inr () \<longrightarrow> ?A \<subseteq> knownDirs (snd ?R)"
      using i3 i1 True unfolding anc by blast
    show ?thesis unfolding step by (intro conjI i1 k2 k3 ex)
  next
    case False
    obtain r st1 where m: "mkdir srv ?c st = (r, st1)" by (cases "mkdir srv ?c st")
    have sh: "knownDirs st1 = knownDirs st
       \<and> (\<exists>es. trace st1 = trace st @ es
          \<and> set es \<subseteq> insert (Sent ''MKCOL'' ?c) (range Backoff))"
      using mkdir_shape[of srv ?c st] unfolding m by simp
    then have k1: "knownDirs st1 = knownDirs st" by (rule conjunct1)
    from sh obtain es1 where
      es1: "trace st1 = trace st @ es1" "set es1 \<subseteq> insert (Sent ''MKCOL'' ?c) (range Backoff)"
      by (elim exE conjE)
    have "{?c} \<subseteq> ?A - knownDirs st" using False unfolding anc by blast
    from mkcolOnly_mono[OF mkcolOnly_single[OF es1(2)] this]
    have o1: "mkcolOnly (?A - knownDirs st) es1" .
    show ?thesis
    proof (cases r)
      case (Inl e)
      then have step: "mkdirp_loop srv c (part # parts) st = (Inl e, st1)"
        using False m by (simp add: Let_def)
      have ex: "\<exists>es. trace (snd (Inl e :: error + unit, st1)) = trace st @ es
          \<and> mkcolOnly (?A - knownDirs st) es"
        using es1(1) o1 by (intro exI[of _ es1]) simp
      have c1: "knownDirs st \<subseteq> knownDirs (snd (Inl e :: error + unit, st1))"
        using k1 by simp
      have c2: "knownDirs (snd (Inl e :: error + unit, st1)) \<subseteq> knownDirs st \<union> ?A"
        using k1 by auto
      have c3: "fst (Inl e :: error + unit, st1) = Inr ()
          \<longrightarrow> ?A \<subseteq> knownDirs (snd (Inl e :: error + unit, st1))"
        by simp
      show ?thesis unfolding step by (intro conjI c1 c2 c3 ex)
    next
      case (Inr u)
      let ?st = "st1\<lparr>knownDirs := insert ?c (knownDirs st1)\<rparr>"
      have step: "mkdirp_loop srv c (part # parts) st = mkdirp_loop srv ?c parts ?st"
        using False m Inr by (simp add: Let_def)
      let ?R = "mkdirp_loop srv ?c parts ?st"
      have ks: "knownDirs ?st = insert ?c (knownDirs st)" "trace ?st = trace st1"
        using k1 by simp_all
      note IH = Cons.IH[where c="?c" and st="?st"]
      have i1: "knownDirs ?st \<subseteq> knownDirs (snd ?R)" using IH by (rule conjunct1)
      have i2: "knownDirs (snd ?R) \<subseteq> knownDirs ?st \<union> set (ancestorsFrom ?c parts)"
        using IH by (elim conjE)
      have i3: "fst ?R = Inr () \<longrightarrow> set (ancestorsFrom ?c parts) \<subseteq> knownDirs (snd ?R)"
        using IH by (elim conjE)
      have i4: "\<exists>es. trace (snd ?R) = trace ?st @ es
          \<and> mkcolOnly (set (ancestorsFrom ?c parts) - knownDirs ?st) es"
        using IH by (elim conjE)
      from i4 obtain es2 where
        es2: "trace (snd ?R) = trace ?st @ es2"
          "mkcolOnly (set (ancestorsFrom ?c parts) - knownDirs ?st) es2"
        by (elim exE conjE)
      have t: "trace (snd ?R) = trace st @ (es1 @ es2)"
        using es2(1) es1(1) ks(2) by simp
      have "set (ancestorsFrom ?c parts) - knownDirs ?st \<subseteq> ?A - knownDirs st"
        unfolding anc ks(1) by blast
      from mkcolOnly_mono[OF es2(2) this]
      have o2: "mkcolOnly (?A - knownDirs st) es2" .
      have o12: "mkcolOnly (?A - knownDirs st) (es1 @ es2)"
        using o1 o2 by (simp only: mkcolOnly_append)
      have ex: "\<exists>es. trace (snd ?R) = trace st @ es \<and> mkcolOnly (?A - knownDirs st) es"
        using t o12 by (intro exI[of _ "es1 @ es2"] conjI)
      have kk1: "knownDirs st \<subseteq> knownDirs (snd ?R)"
        using i1 unfolding ks(1) by blast
      have kk2: "knownDirs (snd ?R) \<subseteq> knownDirs st \<union> ?A"
        using i2 unfolding ks(1) anc by blast
      have kk3: "fst ?R = Inr () \<longrightarrow> ?A \<subseteq> knownDirs (snd ?R)"
        using i3 i1 unfolding ks(1) anc by blast
      show ?thesis unfolding step by (intro conjI kk1 kk2 kk3 ex)
    qed
  qed
qed

lemma mkdir_accepted:
  assumes "mkcolAccepted srv"
  shows "fst (mkdir srv p st) = Inr ()
    \<and> trace (snd (mkdir srv p st)) = trace st @ [Sent ''MKCOL'' p]
    \<and> knownDirs (snd (mkdir srv p st)) = knownDirs st"
proof -
  obtain s where s: "srv (sent st) ''MKCOL'' p = Inr s" and ok: "s = 201 \<or> s = 405 \<or> s < 400"
    using assms unfolding mkcolAccepted_def by blast
  have "s \<noteq> 503" using ok by auto
  then have "srv (sent st) ''MKCOL'' p \<noteq> Inr 503" using s by simp
  note R = request_once[of srv st "''MKCOL''" p, OF this]
  obtain r st' where q: "request srv ''MKCOL'' p None st = (r, st')"
    by (cases "request srv ''MKCOL'' p None st")
  have r: "r = Inr s" using R q s by simp
  have c: "\<not> (s \<noteq> 201 \<and> s \<noteq> 405 \<and> 400 \<le> s)" using ok by auto
  have "mkdir srv p st = (Inr (), st')"
    unfolding mkdir_def q r using c by simp
  then show ?thesis using R q by simp
qed

lemma mkdirp_loop_accepted:
  assumes "mkcolAccepted srv"
  shows "fst (mkdirp_loop srv c parts st) = Inr ()
    \<and> trace (snd (mkdirp_loop srv c parts st)) =
        trace st @ map (Sent ''MKCOL'') (filter (\<lambda>d. d \<notin> knownDirs st) (ancestorsFrom c parts))
    \<and> knownDirs (snd (mkdirp_loop srv c parts st)) = knownDirs st \<union> set (ancestorsFrom c parts)"
proof (induction parts arbitrary: c st)
  case Nil
  then show ?case by simp
next
  case (Cons part parts)
  let ?c = "c @ ''/'' @ part"
  have anc: "ancestorsFrom c (part # parts) = ?c # ancestorsFrom ?c parts" by simp
  show ?case
  proof (cases "?c \<in> knownDirs st")
    case True
    then have step: "mkdirp_loop srv c (part # parts) st = mkdirp_loop srv ?c parts st"
      by (simp add: Let_def)
    have f: "filter (\<lambda>d. d \<notin> knownDirs st) (ancestorsFrom c (part # parts))
        = filter (\<lambda>d. d \<notin> knownDirs st) (ancestorsFrom ?c parts)"
      unfolding anc using True by simp
    have k: "knownDirs st \<union> set (ancestorsFrom c (part # parts))
        = knownDirs st \<union> set (ancestorsFrom ?c parts)"
      unfolding anc using True by auto
    show ?thesis unfolding step f k by (rule Cons.IH)
  next
    case False
    obtain r st1 where m: "mkdir srv ?c st = (r, st1)" by (cases "mkdir srv ?c st")
    from mkdir_accepted[OF assms, of ?c st] m have
      r: "r = Inr ()" and t1: "trace st1 = trace st @ [Sent ''MKCOL'' ?c]"
      and k1: "knownDirs st1 = knownDirs st" by simp_all
    let ?st = "st1\<lparr>knownDirs := insert ?c (knownDirs st1)\<rparr>"
    have step: "mkdirp_loop srv c (part # parts) st = mkdirp_loop srv ?c parts ?st"
      using False m r by (simp add: Let_def)
    have notin: "?c \<notin> set (ancestorsFrom ?c parts)"
      using ancestorsFrom_longer[of ?c ?c parts] by auto
    have ks: "knownDirs ?st = insert ?c (knownDirs st)" "trace ?st = trace st @ [Sent ''MKCOL'' ?c]"
      using k1 t1 by simp_all
    have f: "filter (\<lambda>d. d \<notin> knownDirs ?st) (ancestorsFrom ?c parts)
        = filter (\<lambda>d. d \<notin> knownDirs st) (ancestorsFrom ?c parts)"
      unfolding ks(1) using notin by (intro filter_cong) auto
    have f2: "filter (\<lambda>d. d \<notin> knownDirs st) (ancestorsFrom c (part # parts))
        = ?c # filter (\<lambda>d. d \<notin> knownDirs st) (ancestorsFrom ?c parts)"
      unfolding anc using False by simp
    have k: "knownDirs st \<union> set (ancestorsFrom c (part # parts))
        = knownDirs ?st \<union> set (ancestorsFrom ?c parts)"
      unfolding anc ks(1) by auto
    note IH = Cons.IH[where c="?c" and st="?st"]
    have t: "trace ?st @ map (Sent ''MKCOL'') (filter (\<lambda>d. d \<notin> knownDirs ?st) (ancestorsFrom ?c parts))
        = trace st @ map (Sent ''MKCOL'') (filter (\<lambda>d. d \<notin> knownDirs st) (ancestorsFrom c (part # parts)))"
      unfolding f f2 ks(2) by simp
    show ?thesis unfolding step k t[symmetric] by (rule IH)
  qed
qed

lemma mkcolTargets_append [simp]:
  "mkcolTargets (a @ b) = mkcolTargets a @ mkcolTargets b"
  by (simp add: mkcolTargets_def)

lemma mkcolTargets_mkcol [simp]: "mkcolTargets (map (Sent ''MKCOL'') ds) = ds"
  by (induction ds) (simp_all add: mkcolTargets_def)

lemma mkcolTargets_other:
  "set es \<subseteq> insert (Sent m p) (range Backoff) \<Longrightarrow> m \<noteq> ''MKCOL'' \<Longrightarrow> mkcolTargets es = []"
  by (induction es) (auto simp add: mkcolTargets_def)

lemma call_preserves:
  assumes "mkcolAccepted srv" and "cacheCovers st"
  shows "cacheCovers (call srv c st)"
proof (cases c)
  case (CallMkdirp p)
  let ?anc = "ancestorPrefixes p"
  have t: "trace (call srv c st) = trace st @ map (Sent ''MKCOL'') (filter (\<lambda>d. d \<notin> knownDirs st) ?anc)"
    and k: "knownDirs (call srv c st) = knownDirs st \<union> set ?anc"
    using mkdirp_loop_accepted[OF assms(1)] CallMkdirp
    by (simp_all add: mkdirp_def ancestorPrefixes_def)
  have "distinct ?anc" by (simp add: ancestorPrefixes_def distinct_ancestorsFrom)
  then show ?thesis using assms(2) unfolding cacheCovers_def t k by auto
next
  case (CallUpload p)
  from upload_shape[of srv p st] obtain es where
    "knownDirs (snd (upload srv p st)) = knownDirs st"
    "trace (snd (upload srv p st)) = trace st @ es"
    "set es \<subseteq> insert (Sent ''PUT'' p) (range Backoff)" by blast
  then show ?thesis using assms(2) CallUpload mkcolTargets_other[of es "''PUT''" p]
    by (simp add: cacheCovers_def)
next
  case (CallDelete p)
  from delete_shape[of srv p st] obtain es where
    "knownDirs (snd (delete srv p st)) = knownDirs st"
    "trace (snd (delete srv p st)) = trace st @ es"
    "set es \<subseteq> insert (Sent ''DELETE'' p) (range Backoff)" by blast
  then show ?thesis using assms(2) CallDelete mkcolTargets_other[of es "''DELETE''" p]
    by (simp add: cacheCovers_def)
next
  case (CallExists p)
  from exists_path_shape[of srv p st] obtain es where
    "knownDirs (snd (exists_path srv p st)) = knownDirs st"
    "trace (snd (exists_path srv p st)) = trace st @ es"
    "set es \<subseteq> insert (Sent ''PROPFIND'' p) (range Backoff)" by blast
  then show ?thesis using assms(2) CallExists mkcolTargets_other[of es "''PROPFIND''" p]
    by (simp add: cacheCovers_def)
qed

lemma session_preserves:
  assumes "mkcolAccepted srv" and "cacheCovers st"
  shows "cacheCovers (session srv calls st)"
  using assms(2) unfolding session_def
  by (induction calls arbitrary: st) (simp_all add: call_preserves[OF assms(1)])

lemma mkdir_state: "snd (mkdir srv p st) = snd (request srv ''MKCOL'' p None st)"
  by (simp add: mkdir_def split: prod.split sum.split)

lemma upload_state: "snd (upload srv p st) = snd (request srv ''PUT'' p None st)"
  by (simp add: upload_def split: prod.split sum.split)

lemma delete_state: "snd (delete srv p st) = snd (request srv ''DELETE'' p None st)"
  by (simp add: delete_def split: prod.split sum.split)

lemma exists_path_state: "snd (exists_path srv p st) = snd (request srv ''PROPFIND'' p None st)"
  by (simp add: exists_path_def split: prod.split sum.split)

lemma request_interval:
  "0 \<le> minInterval st \<Longrightarrow> minInterval st \<le> 10000 \<Longrightarrow>
   minInterval st \<le> minInterval (snd (request srv m p r st))
   \<and> minInterval (snd (request srv m p r st)) \<le> 10000"
  unfolding request_def by (rule request_loop_interval)

lemma request_paced:
  "lastRequestTime st + minInterval st \<le> lastRequestTime (snd (request srv m p r st))
   \<and> now st \<le> lastRequestTime (snd (request srv m p r st))
   \<and> lastRequestTime (snd (request srv m p r st)) \<le> now (snd (request srv m p r st))"
  unfolding request_def by (rule request_loop_paced) simp

lemma mkdirp_loop_interval:
  "0 \<le> minInterval st \<Longrightarrow> minInterval st \<le> 10000 \<Longrightarrow>
   minInterval st \<le> minInterval (snd (mkdirp_loop srv c parts st))
   \<and> minInterval (snd (mkdirp_loop srv c parts st)) \<le> 10000"
proof (induction parts arbitrary: c st)
  case Nil
  then show ?case by simp
next
  case (Cons part parts)
  let ?c = "c @ ''/'' @ part"
  show ?case
  proof (cases "?c \<in> knownDirs st")
    case True
    then show ?thesis using Cons.IH[OF Cons.prems, of ?c] by (simp add: Let_def)
  next
    case False
    obtain r st1 where m: "mkdir srv ?c st = (r, st1)" by (cases "mkdir srv ?c st")
    have "st1 = snd (request srv ''MKCOL'' ?c None st)"
      using m mkdir_state[of srv ?c st] by simp
    then have b: "minInterval st \<le> minInterval st1" "minInterval st1 \<le> 10000"
      using request_interval[OF Cons.prems, of srv "''MKCOL''" ?c None] by simp_all
    show ?thesis
    proof (cases r)
      case (Inl e)
      then show ?thesis using False m b by (simp add: Let_def)
    next
      case (Inr u)
      let ?st2 = "st1\<lparr>knownDirs := insert ?c (knownDirs st1)\<rparr>"
      have b2: "0 \<le> minInterval ?st2" "minInterval ?st2 \<le> 10000"
        using b Cons.prems by simp_all
      have "minInterval st \<le> minInterval ?st2" using b by simp
      then have "minInterval st \<le> minInterval (snd (mkdirp_loop srv ?c parts ?st2))
          \<and> minInterval (snd (mkdirp_loop srv ?c parts ?st2)) \<le> 10000"
        using Cons.IH[OF b2, of ?c] by linarith
      then show ?thesis using False m Inr by (simp add: Let_def)
    qed
  qed
qed

lemma call_interval:
  assumes "0 \<le> minInterval st" and "minInterval st \<le> 10000"
  shows "minInterval st \<le> minInterval (call srv c st) \<and> minInterval (call srv c st) \<le> 10000"
proof (cases c)
  case (CallMkdirp p)
  then show ?thesis using mkdirp_loop_interval[OF assms] by (simp add: mkdirp_def)
next
  case (CallUpload p)
  then show ?thesis using request_interval[OF assms] by (simp add: upload_state)
next
  case (CallDelete p)
  then show ?thesis using request_interval[OF assms] by (simp add: delete_state)
next
  case (CallExists p)
  then show ?thesis using request_interval[OF assms] by (simp add: exists_path_state)
qed

lemma session_interval:
  "0 \<le> minInterval st \<Longrightarrow> minInterval st \<le> 10000 \<Longrightarrow>
   minInterval st \<le> minInterval (session srv calls st)
   \<and> minInterval (session srv calls st) \<le> 10000"
proof (induction calls arbitrary: st)
  case Nil
  then show ?case by (simp add: session_def)
next
  case (Cons c cs)
  note C = call_interval[OF Cons.prems, of srv c]
  have b: "0 \<le> minInterval (call srv c st)" using C Cons.prems by linarith
  have "session srv (c # cs) st = session srv cs (call srv c st)" by (simp add: session_def)
  then show ?case using Cons.IH[OF b conjunct2[OF C]] C by simp
qed



lemma download_state: "snd (download srv body p st) = snd (request srv ''GET'' p None st)"
  by (simp add: download_def split: prod.split sum.split)

subsection \<open>The upload plan\<close>

lemma set_computeUploadChanges:
  "set (computeUploadChanges mf localFiles remoteFiles) =
     {uploadChange rel local | rel local.
        (rel, local) \<in> set localFiles
        \<and> (map_of remoteFiles rel = None \<or> getEntry mf rel = None
            \<or> (\<exists>e. getEntry mf rel = Some e
                 \<and> (l_size local \<noteq> m_size e \<or> l_mtimeMs local > m_mtimeMs e + 1000)))}"
proof (induction localFiles)
  case Nil
  then show ?case by simp
next
  case (Cons x rest)
  obtain rel local where x: "x = (rel, local)" by (cases x)
  show ?case
    unfolding x
    by (cases "map_of remoteFiles rel"; cases "getEntry mf rel")
       (auto simp add: Cons.IH)
qed

lemma uploadChange_inject:
  "uploadChange rel local = uploadChange rel' local' \<longleftrightarrow> rel = rel' \<and> local = local'"
  by (cases local; cases local') (auto simp add: uploadChange_def)

lemma relativePath_uploadChange [simp]: "relativePath (uploadChange rel local) = rel"
  by (simp add: uploadChange_def)

subsection \<open>The download plan\<close>

lemma set_planHostFiles:
  "set (planHostFiles fs cacheDir mf files) =
     {downloadChange rel info | rel info.
        (rel, info) \<in> set files
        \<and> (\<not> existsSync fs (path_join cacheDir rel) \<or> getEntry mf rel = None
            \<or> (\<exists>e. getEntry mf rel = Some e \<and> lastModified info > syncedAt e + 1000))}"
proof (induction files)
  case Nil
  then show ?case by simp
next
  case (Cons x rest)
  obtain rel info where x: "x = (rel, info)" by (cases x)
  show ?case
    unfolding x
    by (cases "existsSync fs (path_join cacheDir rel)"; cases "getEntry mf rel")
       (auto simp add: Cons.IH Let_def)
qed

lemma set_planDownloads:
  "set (planDownloads lst fs cacheDir mf hostname hosts) =
     (\<Union>host \<in> {h \<in> set hosts. h \<noteq> hostname}.
        set (planHostFiles fs cacheDir mf (scanHostRemoteFiles lst host)))"
  by (induction hosts) auto

lemma set_update_subset: "set (AList.update k v al) \<subseteq> insert (k, v) (set al)"
  by (induction al) auto

lemma scanSessionFiles_keys:
  assumes "\<And>rel info. (rel, info) \<in> set files \<Longrightarrow> P rel"
    and "\<And>name. P (''hosts/'' @ host @ ''/projects/'' @ projName @ ''/'' @ name)"
    and "(rel, info) \<in> set (scanSessionFiles host projName sessionFiles files)"
  shows "P rel"
  using assms(1,3)
proof (induction sessionFiles arbitrary: files)
  case Nil
  then show ?case by simp
next
  case (Cons f rest)
  let ?k = "''hosts/'' @ host @ ''/projects/'' @ projName @ ''/'' @ path f"
  show ?case
  proof (cases "isDirectory f \<or> \<not> endsWith (path f) ''.jsonl'' \<or> startsWith (path f) ''agent-''")
    case True
    then have "(rel, info) \<in> set (scanSessionFiles host projName rest files)"
      using Cons.prems(2) by simp
    then show ?thesis using Cons.IH[of files] Cons.prems(1) by blast
  next
    case False
    then have m: "(rel, info) \<in> set (scanSessionFiles host projName rest (AList.update ?k f files))"
      using Cons.prems(2) by simp
    have "\<And>rel info. (rel, info) \<in> set (AList.update ?k f files) \<Longrightarrow> P rel"
      using set_update_subset[of ?k f files] Cons.prems(1) assms(2)[of "path f"] by auto
    then show ?thesis using Cons.IH[of "AList.update ?k f files"] m by blast
  qed
qed

lemma scanProjects_keys:
  assumes "\<And>rel info. (rel, info) \<in> set files \<Longrightarrow> P rel"
    and "\<And>rest. P (''hosts/'' @ host @ ''/projects/'' @ rest)"
    and "(rel, info) \<in> set (scanProjects lst host projectDirs files)"
  shows "P rel"
  using assms(1,3)
proof (induction projectDirs arbitrary: files)
  case Nil
  then show ?case by simp
next
  case (Cons projDir rest)
  let ?n = "stripTrailingSlash (path projDir)"
  show ?case
  proof (cases "isDirectory projDir")
    case False
    then have "(rel, info) \<in> set (scanProjects lst host rest files)"
      using Cons.prems(2) by simp
    then show ?thesis using Cons.IH[of files] Cons.prems(1) by blast
  next
    case True
    show ?thesis
    proof (cases "lst (''/hosts/'' @ host @ ''/projects/'' @ ?n)")
      case (Inl e)
      then have "(rel, info) \<in> set files" using Cons.prems(2) True by simp
      then show ?thesis by (rule Cons.prems(1))
    next
      case (Inr sessionFiles)
      then have m: "(rel, info) \<in> set (scanProjects lst host rest
          (scanSessionFiles host ?n sessionFiles files))"
        using Cons.prems(2) True by simp
      have "\<And>rel info. (rel, info) \<in> set (scanSessionFiles host ?n sessionFiles files) \<Longrightarrow> P rel"
      proof -
        fix rel info
        assume "(rel, info) \<in> set (scanSessionFiles host ?n sessionFiles files)"
        then show "P rel"
          by (rule scanSessionFiles_keys[of files P host ?n, rotated 2])
            (use Cons.prems(1) assms(2) in auto)
      qed
      then show ?thesis using Cons.IH[of "scanSessionFiles host ?n sessionFiles files"] m by blast
    qed
  qed
qed

lemma scanHostRemoteFiles_keys:
  assumes "(rel, info) \<in> set (scanHostRemoteFiles lst host)"
  shows "\<exists>rest. rel = ''hosts/'' @ host @ ''/projects/'' @ rest"
proof (cases "lst (''/hosts/'' @ host @ ''/projects'')")
  case (Inl e)
  then show ?thesis using assms by (simp add: scanHostRemoteFiles_def)
next
  case (Inr projectDirs)
  then have m: "(rel, info) \<in> set (scanProjects lst host projectDirs [])"
    using assms by (simp add: scanHostRemoteFiles_def)
  show ?thesis
    by (rule scanProjects_keys[of "[]" "\<lambda>rel. \<exists>rest. rel = ''hosts/'' @ host @ ''/projects/'' @ rest",
          OF _ _ m]) auto
qed

lemma prefix_segment_eq:
  assumes "c \<notin> set a" and "c \<notin> set b" and "prefix (a @ c # x) (b @ c # y)"
  shows "a = b"
  using assms
proof (induction a arbitrary: b)
  case Nil
  then show ?case by (cases b) auto
next
  case (Cons u a)
  then show ?case by (cases b) auto
qed

lemma other_host_prefix:
  assumes "CHR ''/'' \<notin> set hostname" and "CHR ''/'' \<notin> set host" and "host \<noteq> hostname"
  shows "\<not> startsWith (''hosts/'' @ host @ ''/projects/'' @ rest) (''hosts/'' @ hostname @ ''/'')"
proof
  assume "startsWith (''hosts/'' @ host @ ''/projects/'' @ rest) (''hosts/'' @ hostname @ ''/'')"
  then have "prefix (hostname @ CHR ''/'' # []) (host @ CHR ''/'' # (''projects/'' @ rest))"
    by (simp add: startsWith_def)
  from prefix_segment_eq[OF assms(1,2) this] assms(3) show False by simp
qed

subsection \<open>The local scan\<close>

lemma scanFiles_sound:
  assumes "\<And>q. q \<in> set files \<Longrightarrow> Q q"
    and "\<And>file stat. file \<in> set names \<Longrightarrow> statSync fs (path_join fpd file) = Inr stat
          \<Longrightarrow> \<not> st_isDirectory stat \<Longrightarrow> st_size stat \<noteq> 0 \<Longrightarrow> clock - st_mtimeMs stat \<ge> 30000
          \<Longrightarrow> Q (''hosts/'' @ hostname @ ''/projects/'' @ pd @ ''/'' @ file,
                 \<lparr>fullPath = path_join fpd file, l_size = st_size stat,
                  l_mtimeMs = st_mtimeMs stat\<rparr>)"
    and "q \<in> set (snd (scanFiles fs hostname clock fpd pd names files))"
  shows "Q q"
  using assms
proof (induction names arbitrary: files)
  case Nil
  then show ?case by simp
next
  case (Cons f rest)
  have rest: "\<And>file stat. file \<in> set rest \<Longrightarrow> statSync fs (path_join fpd file) = Inr stat
          \<Longrightarrow> \<not> st_isDirectory stat \<Longrightarrow> st_size stat \<noteq> 0 \<Longrightarrow> clock - st_mtimeMs stat \<ge> 30000
          \<Longrightarrow> Q (''hosts/'' @ hostname @ ''/projects/'' @ pd @ ''/'' @ file,
                 \<lparr>fullPath = path_join fpd file, l_size = st_size stat,
                  l_mtimeMs = st_mtimeMs stat\<rparr>)"
    using Cons.prems(2) by simp
  show ?case
  proof (cases "statSync fs (path_join fpd f)")
    case (Inl e)
    then show ?thesis using Cons.prems(1,3) by simp
  next
    case (Inr stat)
    show ?thesis
    proof (cases "st_isDirectory stat \<or> st_size stat = 0 \<or> clock - st_mtimeMs stat < 30000")
      case True
      then have step: "scanFiles fs hostname clock fpd pd (f # rest) files
          = scanFiles fs hostname clock fpd pd rest files"
        using Inr by auto
      have m: "q \<in> set (snd (scanFiles fs hostname clock fpd pd rest files))"
        using Cons.prems(3) unfolding step .
      show ?thesis by (rule Cons.IH[of files, OF Cons.prems(1) rest m])
    next
      case False
      let ?k = "''hosts/'' @ hostname @ ''/projects/'' @ pd @ ''/'' @ f"
      let ?v = "\<lparr>fullPath = path_join fpd f, l_size = st_size stat, l_mtimeMs = st_mtimeMs stat\<rparr>"
      have m: "q \<in> set (snd (scanFiles fs hostname clock fpd pd rest (AList.update ?k ?v files)))"
        using Cons.prems(3) Inr False by simp
      have "Q (?k, ?v)" using Cons.prems(2)[of f stat] Inr False by simp
      then have "\<And>q. q \<in> set (AList.update ?k ?v files) \<Longrightarrow> Q q"
        using set_update_subset[of ?k ?v files] Cons.prems(1) by auto
      from Cons.IH[of "AList.update ?k ?v files", OF this rest m] show ?thesis .
    qed
  qed
qed





lemma filterProjectDirs_set:
  "filterProjectDirs fs P names = Inr keep
    \<Longrightarrow> set keep = {d \<in> set names. \<exists>s. statSync fs (path_join P d) = Inr s
          \<and> st_isDirectory s \<and> \<not> startsWith d ''.''}"
proof (induction names arbitrary: keep)
  case Nil
  then show ?case by simp
next
  case (Cons d ds)
  from Cons.prems obtain s where s: "statSync fs (path_join P d) = Inr s"
    by (cases "statSync fs (path_join P d)") simp_all
  from Cons.prems s obtain k where k: "filterProjectDirs fs P ds = Inr k"
    by (cases "filterProjectDirs fs P ds") simp_all
  have keep: "keep = (if st_isDirectory s \<and> \<not> startsWith d ''.'' then d # k else k)"
    using Cons.prems s k by simp
  show ?case unfolding keep using Cons.IH[OF k] s by auto
qed


lemma scanProjectDirs_sound:
  assumes "\<And>q. q \<in> set files \<Longrightarrow> Q q"
    and "\<And>pd names file stat. pd \<in> set pds \<Longrightarrow> readdirSync fs (path_join P pd) = Inr names
          \<Longrightarrow> file \<in> set names \<Longrightarrow> endsWith file ''.jsonl'' \<Longrightarrow> \<not> startsWith file ''agent-''
          \<Longrightarrow> statSync fs (path_join (path_join P pd) file) = Inr stat
          \<Longrightarrow> \<not> st_isDirectory stat \<Longrightarrow> st_size stat \<noteq> 0 \<Longrightarrow> clock - st_mtimeMs stat \<ge> 30000
          \<Longrightarrow> Q (''hosts/'' @ hostname @ ''/projects/'' @ pd @ ''/'' @ file,
                 \<lparr>fullPath = path_join (path_join P pd) file, l_size = st_size stat,
                  l_mtimeMs = st_mtimeMs stat\<rparr>)"
    and "q \<in> set (snd (scanProjectDirs fs hostname clock P pds files))"
  shows "Q q"
  using assms
proof (induction pds arbitrary: files)
  case Nil
  then show ?case by simp
next
  case (Cons pd rest)
  have rest: "\<And>pd names file stat. pd \<in> set rest \<Longrightarrow> readdirSync fs (path_join P pd) = Inr names
          \<Longrightarrow> file \<in> set names \<Longrightarrow> endsWith file ''.jsonl'' \<Longrightarrow> \<not> startsWith file ''agent-''
          \<Longrightarrow> statSync fs (path_join (path_join P pd) file) = Inr stat
          \<Longrightarrow> \<not> st_isDirectory stat \<Longrightarrow> st_size stat \<noteq> 0 \<Longrightarrow> clock - st_mtimeMs stat \<ge> 30000
          \<Longrightarrow> Q (''hosts/'' @ hostname @ ''/projects/'' @ pd @ ''/'' @ file,
                 \<lparr>fullPath = path_join (path_join P pd) file, l_size = st_size stat,
                  l_mtimeMs = st_mtimeMs stat\<rparr>)"
    using Cons.prems(2) by simp
  show ?case
  proof (cases "readdirSync fs (path_join P pd)")
    case (Inl e)
    then show ?thesis using Cons.prems(1,3) by simp
  next
    case (Inr names)
    let ?names = "filter (\<lambda>f. endsWith f ''.jsonl'' \<and> \<not> startsWith f ''agent-'') names"
    let ?r = "scanFiles fs hostname clock (path_join P pd) pd ?names files"
    have inner: "\<And>q. q \<in> set (snd ?r) \<Longrightarrow> Q q"
    proof -
      fix q assume "q \<in> set (snd ?r)"
      then show "Q q"
        by (rule scanFiles_sound[of files Q ?names fs "path_join P pd" clock hostname pd, rotated 2])
          (use Cons.prems(1) Cons.prems(2)[of pd names] Inr in auto)
    qed
    show ?thesis
    proof (cases "fst ?r")
      case None
      then have step: "scanProjectDirs fs hostname clock P (pd # rest) files
          = scanProjectDirs fs hostname clock P rest (snd ?r)"
        using Inr by (simp add: case_prod_unfold)
      have m: "q \<in> set (snd (scanProjectDirs fs hostname clock P rest (snd ?r)))"
        using Cons.prems(3) unfolding step .
      show ?thesis by (rule Cons.IH[of "snd ?r", OF inner rest m])
    next
      case (Some e)
      then have step: "scanProjectDirs fs hostname clock P (pd # rest) files = (Some e, snd ?r)"
        using Inr by (simp add: case_prod_unfold)
      show ?thesis using inner Cons.prems(3) unfolding step by simp
    qed
  qed
qed





lemma scanRoot_sound:
  assumes "\<And>q. q \<in> set files \<Longrightarrow> Q q"
    and "\<And>pd file stat. scannable fs clock dir pd file stat
          \<Longrightarrow> Q (scannedFile hostname dir pd file stat)"
    and "existsSync fs (path_join dir ''projects'')"
    and "q \<in> set (snd (scanRoot fs hostname clock (path_join dir ''projects'') files))"
  shows "Q q"
proof (cases "readdirSync fs (path_join dir ''projects'')")
  case (Inl e)
  then show ?thesis using assms(1,4) by (simp add: scanRoot_def)
next
  case (Inr names)
  let ?P = "path_join dir ''projects''"
  show ?thesis
  proof (cases "filterProjectDirs fs ?P names")
    case (Inl e)
    then show ?thesis using assms(1,4) Inr by (simp add: scanRoot_def)
  next
    case keep: (Inr pds)
    have m: "q \<in> set (snd (scanProjectDirs fs hostname clock ?P pds files))"
      using assms(4) Inr keep by (simp add: scanRoot_def)
    note S = filterProjectDirs_set[OF keep]
    show ?thesis
    proof (rule scanProjectDirs_sound[of files Q pds fs ?P clock hostname, OF assms(1) _ m])
      fix pd ns fl stat
      assume a: "pd \<in> set pds" "readdirSync fs (path_join ?P pd) = Inr ns" "fl \<in> set ns"
        "endsWith fl ''.jsonl''" "\<not> startsWith fl ''agent-''"
        "statSync fs (path_join (path_join ?P pd) fl) = Inr stat"
        "\<not> st_isDirectory stat" "st_size stat \<noteq> 0" "clock - st_mtimeMs stat \<ge> 30000"
      have "scannable fs clock dir pd fl stat"
        unfolding scannable_def using a S Inr assms(3) by auto
      from assms(2)[OF this]
      show "Q (''hosts/'' @ hostname @ ''/projects/'' @ pd @ ''/'' @ fl,
             \<lparr>fullPath = path_join (path_join ?P pd) fl, l_size = st_size stat,
              l_mtimeMs = st_mtimeMs stat\<rparr>)"
        by (simp add: scannedFile_def)
    qed
  qed
qed




lemma scanClaudeDirs_sound:
  assumes "\<And>q. q \<in> set files \<Longrightarrow> Q q"
    and "\<And>dir pd file stat. dir \<in> set dirs \<Longrightarrow> dir \<noteq> cacheDir
          \<Longrightarrow> scannable fs clock dir pd file stat
          \<Longrightarrow> Q (scannedFile hostname dir pd file stat)"
    and "q \<in> set (scanClaudeDirs fs hostname cacheDir clock dirs files)"
  shows "Q q"
  using assms
proof (induction dirs arbitrary: files)
  case Nil
  then show ?case by simp
next
  case (Cons dir rest)
  have rest: "\<And>dir pd file stat. dir \<in> set rest \<Longrightarrow> dir \<noteq> cacheDir
          \<Longrightarrow> scannable fs clock dir pd file stat
          \<Longrightarrow> Q (scannedFile hostname dir pd file stat)"
    using Cons.prems(2) by simp
  show ?case
  proof (cases "dir = cacheDir \<or> \<not> existsSync fs (path_join dir ''projects'')")
    case True
    then have step: "scanClaudeDirs fs hostname cacheDir clock (dir # rest) files
        = scanClaudeDirs fs hostname cacheDir clock rest files" by auto
    have m: "q \<in> set (scanClaudeDirs fs hostname cacheDir clock rest files)"
      using Cons.prems(3) unfolding step .
    show ?thesis by (rule Cons.IH[of files, OF Cons.prems(1) rest m])
  next
    case False
    let ?f = "snd (scanRoot fs hostname clock (path_join dir ''projects'') files)"
    have step: "scanClaudeDirs fs hostname cacheDir clock (dir # rest) files
        = scanClaudeDirs fs hostname cacheDir clock rest ?f"
      using False by simp
    have m: "q \<in> set (scanClaudeDirs fs hostname cacheDir clock rest ?f)"
      using Cons.prems(3) unfolding step .
    have inner: "\<And>q. q \<in> set ?f \<Longrightarrow> Q q"
    proof -
      fix q assume q: "q \<in> set ?f"
      show "Q q"
      proof (rule scanRoot_sound[of files Q fs clock dir hostname, OF Cons.prems(1) _ _ q])
        fix pd fl stat
        assume "scannable fs clock dir pd fl stat"
        then show "Q (scannedFile hostname dir pd fl stat)"
          using Cons.prems(2)[of dir pd fl stat] False by simp
      next
        show "existsSync fs (path_join dir ''projects'')" using False by simp
      qed
    qed
    show ?thesis by (rule Cons.IH[of ?f, OF inner rest m])
  qed
qed





lemma localMtime_uploadChange [simp]: "localMtime (uploadChange rel local) = Some (l_mtimeMs local)"
  by (simp add: uploadChange_def)

lemma computeUploadChanges_from:
  "c \<in> set (computeUploadChanges mf localFiles remoteFiles)
    \<Longrightarrow> \<exists>rel local. (rel, local) \<in> set localFiles \<and> c = uploadChange rel local"
  unfolding set_computeUploadChanges by blast


subsection \<open>Splitting and joining lines\<close>

lemma str_split_nonempty [simp]: "str_split c s \<noteq> []"
  by (induction s) (auto split: list.split)

lemma str_split_no_sep: "l \<in> set (str_split c s) \<Longrightarrow> c \<notin> set l"
proof (induction s arbitrary: l)
  case Nil
  then show ?case by simp
next
  case (Cons x xs)
  obtain h t where ht: "str_split c xs = h # t" by (cases "str_split c xs") simp_all
  have h: "c \<notin> set h" and t: "\<And>l. l \<in> set t \<Longrightarrow> c \<notin> set l"
    using Cons.IH ht by auto
  show ?case using Cons.prems ht h t by (auto split: if_splits)
qed

lemma str_split_plain: "c \<notin> set l \<Longrightarrow> str_split c l = [l]"
  by (induction l) auto

lemma str_split_append: "c \<notin> set l \<Longrightarrow> str_split c (l @ c # rest) = l # str_split c rest"
  by (induction l) auto

lemma str_split_join:
  assumes "\<forall>l \<in> set ls. c \<notin> set l"
  shows "str_split c (str_join c ls @ [c]) = (if ls = [] then [[], []] else ls @ [[]])"
  using assms
proof (induction c ls rule: str_join.induct)
  case (1 c)
  then show ?case by simp
next
  case (2 c l)
  then show ?case using str_split_append[of c l "[]"] by simp
next
  case (3 c l m ls)
  have "str_split c (str_join c (l # m # ls) @ [c])
      = l # str_split c (str_join c (m # ls) @ [c])"
    using 3(2) str_split_append[of c l "str_join c (m # ls) @ [c]"] by simp
  then show ?case using 3 by simp
qed

subsection \<open>The history map\<close>

lemma parseLines_step:
  "parseLines parse (l # ls) entries =
     parseLines parse ls (case entryOf parse l of None \<Rightarrow> entries | Some e \<Rightarrow> put e entries)"
proof (cases "isBlank l")
  case True
  then show ?thesis by (simp add: entryOf_def)
next
  case nb: False
  show ?thesis
  proof (cases "parse l")
    case None
    then show ?thesis using nb by (simp add: entryOf_def)
  next
    case (Some entry)
    show ?thesis
    proof (cases "sessionId entry")
      case None
      then show ?thesis using nb Some by (simp add: entryOf_def)
    next
      case sid: (Some sid)
      show ?thesis
      proof (cases "sid = []")
        case True
        then show ?thesis using nb Some sid by (simp add: entryOf_def)
      next
        case ne: False
        have e: "entryOf parse l = Some (sid, \<lparr>line = l, h_timestamp = timestamp entry\<rparr>)"
          using nb Some sid ne by (simp add: entryOf_def)
        show ?thesis
        proof (cases "map_of entries sid")
          case None
          then show ?thesis unfolding e using nb Some sid ne by (simp add: put_def)
        next
          case ex: (Some existing)
          then show ?thesis unfolding e using nb Some sid ne by (simp add: put_def)
        qed
      qed
    qed
  qed
qed

lemma parseLines_fold:
  "parseLines parse ls entries = fold put (List.map_filter (entryOf parse) ls) entries"
proof (induction ls arbitrary: entries)
  case Nil
  then show ?case by (simp add: List.map_filter_simps)
next
  case (Cons l ls)
  show ?case
    unfolding parseLines_step Cons.IH
    by (cases "entryOf parse l") (simp_all add: List.map_filter_simps)
qed

lemma mergedEntries_fold:
  "mergedEntries parse a b = fold put (validEntries parse a @ validEntries parse b) []"
  by (simp add: mergedEntries_def validEntries_def parseLines_fold)

lemma map_of_put:
  "map_of (put e entries) sid =
     (if sid = fst e
      then (case map_of entries sid of
              None \<Rightarrow> Some (snd e)
            | Some existing \<Rightarrow>
                if h_timestamp (snd e) > h_timestamp existing then Some (snd e)
                else Some existing)
      else map_of entries sid)"
  by (simp add: put_def AList.update_conv' split: option.split)

lemma distinct_put: "distinct (map fst entries) \<Longrightarrow> distinct (map fst (put e entries))"
  by (simp add: put_def AList.distinct_update split: option.split)

lemma distinct_fold_put:
  "distinct (map fst entries) \<Longrightarrow> distinct (map fst (fold put es entries))"
  by (induction es arbitrary: entries) (simp_all add: distinct_put)

lemma map_of_fold_put_cong:
  "map_of E1 = map_of E2 \<Longrightarrow> map_of (fold put es E1) = map_of (fold put es E2)"
proof (induction es arbitrary: E1 E2)
  case Nil
  then show ?case by simp
next
  case (Cons e es)
  have "map_of (put e E1) = map_of (put e E2)"
    by (rule ext) (simp add: map_of_put Cons.prems)
  from Cons.IH[OF this] show ?case by simp
qed

lemma winner_fold_put:
  "(case map_of (fold put es []) sid of
      None \<Rightarrow> sid \<notin> fst ` set es
    | Some w \<Rightarrow>
        \<exists>pre post. filter (\<lambda>p. fst p = sid) es = pre @ (sid, w) # post
          \<and> (\<forall>p \<in> set pre. h_timestamp (snd p) < h_timestamp w)
          \<and> (\<forall>p \<in> set post. h_timestamp (snd p) \<le> h_timestamp w))"
proof (induction es rule: rev_induct)
  case Nil
  then show ?case by simp
next
  case (snoc e es)
  let ?E = "fold put es []"
  have f: "fold put (es @ [e]) [] = put e ?E" by simp
  show ?case
  proof (cases "fst e = sid")
    case False
    then have m: "map_of (put e ?E) sid = map_of ?E sid" by (simp add: map_of_put)
    have fl: "filter (\<lambda>p. fst p = sid) (es @ [e]) = filter (\<lambda>p. fst p = sid) es"
      using False by simp
    have im: "sid \<notin> fst ` set (es @ [e]) \<longleftrightarrow> sid \<notin> fst ` set es" using False by auto
    show ?thesis unfolding f m fl im by (rule snoc.IH)
  next
    case True
    then have e: "e = (sid, snd e)" by (cases e) simp
    have fl: "filter (\<lambda>p. fst p = sid) (es @ [e])
        = filter (\<lambda>p. fst p = sid) es @ [(sid, snd e)]"
      using True e by simp
    show ?thesis
    proof (cases "map_of ?E sid")
      case None
      then have m: "map_of (put e ?E) sid = Some (snd e)" using True by (simp add: map_of_put)
      from snoc.IH None have "sid \<notin> fst ` set es" by simp
      then have "filter (\<lambda>p. fst p = sid) es = []" by (auto simp add: filter_empty_conv)
      then have "filter (\<lambda>p. fst p = sid) (es @ [e]) = [] @ (sid, snd e) # []"
        using fl by simp
      then have "\<exists>pre post. filter (\<lambda>p. fst p = sid) (es @ [e]) = pre @ (sid, snd e) # post
          \<and> (\<forall>p \<in> set pre. h_timestamp (snd p) < h_timestamp (snd e))
          \<and> (\<forall>p \<in> set post. h_timestamp (snd p) \<le> h_timestamp (snd e))"
        by (intro exI[of _ "[]"]) simp
      then show ?thesis unfolding f m by simp
    next
      case (Some w)
      from snoc.IH Some obtain pre post where
        pp: "filter (\<lambda>p. fst p = sid) es = pre @ (sid, w) # post"
          "\<forall>p \<in> set pre. h_timestamp (snd p) < h_timestamp w"
          "\<forall>p \<in> set post. h_timestamp (snd p) \<le> h_timestamp w"
        by auto
      show ?thesis
      proof (cases "h_timestamp (snd e) > h_timestamp w")
        case gt: True
        then have m: "map_of (put e ?E) sid = Some (snd e)"
          using True Some by (simp add: map_of_put)
        have a: "filter (\<lambda>p. fst p = sid) (es @ [e]) = (pre @ (sid, w) # post) @ (sid, snd e) # []"
          using fl pp(1) by simp
        have b: "\<forall>p \<in> set (pre @ (sid, w) # post). h_timestamp (snd p) < h_timestamp (snd e)"
          using pp(2,3) gt by fastforce
        have "\<exists>pre post. filter (\<lambda>p. fst p = sid) (es @ [e]) = pre @ (sid, snd e) # post
          \<and> (\<forall>p \<in> set pre. h_timestamp (snd p) < h_timestamp (snd e))
          \<and> (\<forall>p \<in> set post. h_timestamp (snd p) \<le> h_timestamp (snd e))"
          using a b by (intro exI[of _ "pre @ (sid, w) # post"] exI[of _ "[]"]) simp
        then show ?thesis unfolding f m by simp
      next
        case le: False
        then have m: "map_of (put e ?E) sid = Some w"
          using True Some by (simp add: map_of_put)
        have a: "filter (\<lambda>p. fst p = sid) (es @ [e]) = pre @ (sid, w) # (post @ [(sid, snd e)])"
          using fl pp(1) by simp
        have b: "\<forall>p \<in> set (post @ [(sid, snd e)]). h_timestamp (snd p) \<le> h_timestamp w"
          using pp(3) le by auto
        have "\<exists>pre post. filter (\<lambda>p. fst p = sid) (es @ [e]) = pre @ (sid, w) # post
          \<and> (\<forall>p \<in> set pre. h_timestamp (snd p) < h_timestamp w)
          \<and> (\<forall>p \<in> set post. h_timestamp (snd p) \<le> h_timestamp w)"
          using a b pp(2) by (intro exI[of _ pre] exI[of _ "post @ [(sid, snd e)]"]) simp
        then show ?thesis unfolding f m by simp
      qed
    qed
  qed
qed

lemma update_fresh: "k \<notin> fst ` set al \<Longrightarrow> AList.update k v al = al @ [(k, v)]"
  by (induction al) auto

lemma fold_put_distinct:
  "distinct (map fst (E @ es)) \<Longrightarrow> fold put es E = E @ es"
proof (induction es arbitrary: E)
  case Nil
  then show ?case by simp
next
  case (Cons e es)
  have fresh: "fst e \<notin> fst ` set E" using Cons.prems by auto
  then have "map_of E (fst e) = None" by (simp add: map_of_eq_None_iff)
  then have p: "put e E = E @ [e]" using fresh by (simp add: put_def update_fresh)
  have "distinct (map fst ((E @ [e]) @ es))" using Cons.prems by simp
  from Cons.IH[OF this] show ?case using p by simp
qed

lemma put_dominated: "dominated E e \<Longrightarrow> put e E = E"
  by (auto simp add: dominated_def put_def)

lemma fold_put_dominated:
  "\<forall>e \<in> set es. dominated E e \<Longrightarrow> fold put es E = E"
  by (induction es) (simp_all add: put_dominated)

lemma dominated_cong: "map_of E1 = map_of E2 \<Longrightarrow> dominated E1 e = dominated E2 e"
  by (simp add: dominated_def)

lemma dominated_put: "dominated E x \<Longrightarrow> dominated (put e E) x"
  unfolding dominated_def map_of_put by (auto split: option.split)

lemma dominated_put_self: "dominated (put e E) e"
  unfolding dominated_def map_of_put by (auto split: option.split)

lemma dominated_fold_put: "dominated E x \<Longrightarrow> dominated (fold put es E) x"
  by (induction es arbitrary: E) (simp_all add: dominated_put)

lemma dominated_fold_put_mem: "x \<in> set es \<Longrightarrow> dominated (fold put es E) x"
proof (induction es arbitrary: E)
  case Nil
  then show ?case by simp
next
  case (Cons e es)
  show ?case
  proof (cases "x = e")
    case True
    have "dominated (fold put es (put e E)) e"
      by (rule dominated_fold_put) (rule dominated_put_self)
    then show ?thesis using True by simp
  next
    case False
    then have "x \<in> set es" using Cons.prems by simp
    from Cons.IH[OF this, of "put e E"] show ?thesis by simp
  qed
qed

lemma entryOf_line: "entryOf parse l = Some e \<Longrightarrow> line (snd e) = l"
  by (auto simp add: entryOf_def split: if_splits option.splits)

lemma entryOf_blank [simp]: "entryOf parse [] = None"
  by (simp add: entryOf_def isBlank_def)

lemma validEntries_mem:
  assumes "e \<in> set (validEntries parse content)"
  shows "entryOf parse (line (snd e)) = Some e \<and> CHR 0x0A \<notin> set (line (snd e))"
proof -
  from assms obtain l where l: "l \<in> set (str_split CHR 0x0A content)" "entryOf parse l = Some e"
    unfolding validEntries_def by (auto simp add: List.map_filter_def)
  have "line (snd e) = l" using l(2) by (rule entryOf_line)
  then show ?thesis using l str_split_no_sep[of l "CHR 0x0A" content] by simp
qed

lemma wellFormed_put:
  assumes "wellFormed parse E"
    and "entryOf parse (line (snd e)) = Some e \<and> CHR 0x0A \<notin> set (line (snd e))"
  shows "wellFormed parse (put e E)"
proof -
  have "set (put e E) \<subseteq> insert e (set E)"
    using set_update_subset[of "fst e" "snd e" E] by (auto simp add: put_def split: option.split)
  then show ?thesis using assms unfolding wellFormed_def by blast
qed

lemma wellFormed_fold_put:
  assumes "wellFormed parse E"
    and "\<forall>e \<in> set es. entryOf parse (line (snd e)) = Some e \<and> CHR 0x0A \<notin> set (line (snd e))"
  shows "wellFormed parse (fold put es E)"
  using assms
proof (induction es arbitrary: E)
  case Nil
  then show ?case by simp
next
  case (Cons e es)
  have "wellFormed parse (put e E)" using Cons.prems by (intro wellFormed_put) simp_all
  then show ?case using Cons.IH[of "put e E"] Cons.prems(2) by simp
qed

lemma mergedEntries_wellFormed: "wellFormed parse (mergedEntries parse a b)"
  unfolding mergedEntries_fold
  by (rule wellFormed_fold_put) (auto simp add: wellFormed_def dest: validEntries_mem)

lemma mergedEntries_distinct: "distinct (map fst (mergedEntries parse a b))"
  unfolding mergedEntries_fold by (rule distinct_fold_put) simp

lemma historyEntries_fold: "historyEntries parse x = fold put (validEntries parse x) []"
  by (simp add: historyEntries_def validEntries_def parseLines_fold)

lemma mergedEntries_onto:
  "mergedEntries parse a b = fold put (validEntries parse b) (historyEntries parse a)"
  by (simp add: mergedEntries_fold historyEntries_fold)

lemma map_filter_total:
  "\<forall>x \<in> set xs. f x \<noteq> None \<Longrightarrow> List.map_filter f xs = map (\<lambda>x. the (f x)) xs"
  by (induction xs) (auto simp add: List.map_filter_simps)

lemma map_filter_snoc_None:
  "f y = None \<Longrightarrow> List.map_filter f (xs @ [y]) = List.map_filter f xs"
  by (simp add: List.map_filter_def)

lemma canonical_entries:
  assumes d: "distinct (map fst E)" and wf: "wellFormed parse E"
  shows "\<exists>E'. validEntries parse (str_join CHR 0x0A (map line (sort_key f (map snd E))) @ [CHR 0x0A]) = E'
      \<and> set E' = set E \<and> distinct (map fst E') \<and> map snd E' = sort_key f (map snd E)"
proof -
  let ?S = "sort_key f (map snd E)"
  let ?g = "\<lambda>v. the (entryOf parse (line v))"
  let ?E' = "map ?g ?S"
  have g: "\<And>e. e \<in> set E \<Longrightarrow> ?g (snd e) = e" using wf unfolding wellFormed_def by simp
  have setS: "set ?S = snd ` set E" by simp
  have nl: "\<forall>l \<in> set (map line ?S). CHR 0x0A \<notin> set l"
    using wf unfolding wellFormed_def by auto
  have ok: "\<forall>l \<in> set (map line ?S). entryOf parse l \<noteq> None"
    using wf unfolding wellFormed_def by auto
  have split: "str_split CHR 0x0A (str_join CHR 0x0A (map line ?S) @ [CHR 0x0A])
      = (if map line ?S = [] then [[], []] else map line ?S @ [[]])"
    by (rule str_split_join[OF nl])
  have "List.map_filter (entryOf parse)
          (str_split CHR 0x0A (str_join CHR 0x0A (map line ?S) @ [CHR 0x0A]))
      = List.map_filter (entryOf parse) (map line ?S)"
    unfolding split by (simp add: map_filter_snoc_None List.map_filter_simps)
  also have "\<dots> = map (\<lambda>l. the (entryOf parse l)) (map line ?S)"
    by (rule map_filter_total[OF ok])
  also have "\<dots> = ?E'" by (simp add: comp_def)
  finally have v: "validEntries parse (str_join CHR 0x0A (map line ?S) @ [CHR 0x0A]) = ?E'"
    unfolding validEntries_def .
  have "set ?E' = (\<lambda>e. ?g (snd e)) ` set E" by (simp add: image_image)
  also have "\<dots> = set E" using g by force
  finally have s: "set ?E' = set E" .
  have sg: "\<And>v. v \<in> set ?S \<Longrightarrow> snd (?g v) = v"
  proof -
    fix v assume "v \<in> set ?S"
    then obtain e where "e \<in> set E" "v = snd e" using setS by auto
    then show "snd (?g v) = v" using g by simp
  qed
  have "map (\<lambda>v. snd (?g v)) ?S = ?S" by (rule map_idI) (rule sg)
  then have m: "map snd ?E' = ?S" by (simp add: comp_def)
  have injs: "inj_on snd (set E)"
  proof (rule inj_onI)
    fix x y assume x: "x \<in> set E" and y: "y \<in> set E" and eq: "snd x = snd y"
    have "?g (snd x) = ?g (snd y)" by (simp only: eq)
    then show "x = y" by (rule box_equals[OF _ g[OF x] g[OF y]])
  qed
  have "distinct E" using d by (rule distinct_map[THEN iffD1, THEN conjunct1])
  then have "distinct (map snd E)" using injs by (simp add: distinct_map)
  then have dS: "distinct ?S" by simp
  have injf: "inj_on (\<lambda>v. fst (?g v)) (set ?S)"
  proof (rule inj_onI)
    fix x y assume x: "x \<in> set ?S" and y: "y \<in> set ?S" and eq: "fst (?g x) = fst (?g y)"
    from x obtain ex where ex: "ex \<in> set E" "x = snd ex" using setS by auto
    from y obtain ey where ey: "ey \<in> set E" "y = snd ey" using setS by auto
    have gx: "?g x = ex" unfolding ex(2) by (rule g[OF ex(1)])
    have gy: "?g y = ey" unfolding ey(2) by (rule g[OF ey(1)])
    have k: "fst ex = fst ey" using eq unfolding gx gy .
    have m1: "(fst ex, snd ex) \<in> set E" using ex(1) by simp
    have m2: "(fst ex, snd ey) \<in> set E" using ey(1) unfolding k by simp
    have "snd ex = snd ey" by (rule eq_key_imp_eq_value[OF d m1 m2])
    then show "x = y" unfolding ex(2) ey(2) .
  qed
  have dE': "distinct (map fst ?E')"
    using dS injf by (simp add: distinct_map comp_def)
  show ?thesis using v s dE' m by blast
qed

lemma reparse_merge:
  "\<exists>E'. validEntries parse (mergeHistoryFiles parse a b) = E'
      \<and> historyEntries parse (mergeHistoryFiles parse a b) = E'
      \<and> set E' = set (mergedEntries parse a b) \<and> distinct (map fst E')
      \<and> map_of E' = map_of (mergedEntries parse a b)
      \<and> map snd E' = sort_key (\<lambda>e. - h_timestamp e) (map snd (mergedEntries parse a b))"
proof -
  let ?E = "mergedEntries parse a b"
  from canonical_entries[where E="mergedEntries parse a b" and parse=parse
      and f="\<lambda>e. - h_timestamp e", OF mergedEntries_distinct mergedEntries_wellFormed]
  obtain E' where E': "validEntries parse (mergeHistoryFiles parse a b) = E'"
    "set E' = set ?E" "distinct (map fst E')"
    "map snd E' = sort_key (\<lambda>e. - h_timestamp e) (map snd ?E)"
    unfolding mergeHistoryFiles_def Let_def by blast
  have h: "historyEntries parse (mergeHistoryFiles parse a b) = E'"
    unfolding historyEntries_fold E'(1) using fold_put_distinct[of "[]" E'] E'(3) by simp
  have mo: "map_of E' = map_of ?E"
    using map_of_inject_set[OF E'(3) mergedEntries_distinct[of parse a b]] E'(2) by simp
  show ?thesis using E' h mo by blast
qed

lemma merge_fixed:
  assumes "\<forall>e \<in> set (validEntries parse r). dominated (historyEntries parse (mergeHistoryFiles parse a b)) e"
  shows "mergeHistoryFiles parse (mergeHistoryFiles parse a b) r = mergeHistoryFiles parse a b"
proof -
  let ?M = "mergeHistoryFiles parse a b"
  let ?f = "\<lambda>e. - h_timestamp e"
  from reparse_merge[of parse a b] obtain E' where
    E': "historyEntries parse ?M = E'"
      "map snd E' = sort_key ?f (map snd (mergedEntries parse a b))" by blast
  have "mergedEntries parse ?M r = fold put (validEntries parse r) E'"
    unfolding mergedEntries_onto E'(1) ..
  also have "\<dots> = E'" using assms unfolding E'(1) by (rule fold_put_dominated)
  finally have me: "mergedEntries parse ?M r = E'" .
  have "sorted (map ?f (sort_key ?f (map snd (mergedEntries parse a b))))"
    by (rule sorted_sort_key)
  then have id: "sort_key ?f (sort_key ?f (map snd (mergedEntries parse a b)))
      = sort_key ?f (map snd (mergedEntries parse a b))"
    by (rule sort_key_id_if_sorted)
  show ?thesis
    unfolding mergeHistoryFiles_def[of parse ?M r] me Let_def E'(2) id
    by (simp add: mergeHistoryFiles_def)
qed

lemma merge_covers_remote:
  "e \<in> set (validEntries parse r)
    \<Longrightarrow> dominated (historyEntries parse (mergeHistoryFiles parse x r)) e"
proof -
  assume e: "e \<in> set (validEntries parse r)"
  from reparse_merge[of parse x r] obtain E' where
    E': "historyEntries parse (mergeHistoryFiles parse x r) = E'"
      "map_of E' = map_of (mergedEntries parse x r)" by blast
  have "dominated (mergedEntries parse x r) e"
    unfolding mergedEntries_onto using e by (rule dominated_fold_put_mem)
  then show ?thesis unfolding E'(1) using dominated_cong[OF E'(2)] by simp
qed

lemma merge_keeps_dominated:
  "dominated (historyEntries parse x) e
    \<Longrightarrow> dominated (historyEntries parse (mergeHistoryFiles parse x r)) e"
proof -
  assume d: "dominated (historyEntries parse x) e"
  from reparse_merge[of parse x r] obtain E' where
    E': "historyEntries parse (mergeHistoryFiles parse x r) = E'"
      "map_of E' = map_of (mergedEntries parse x r)" by blast
  have "dominated (mergedEntries parse x r) e"
    unfolding mergedEntries_onto using d by (rule dominated_fold_put)
  then show ?thesis unfolding E'(1) using dominated_cong[OF E'(2)] by simp
qed

lemma merge_idempotent:
  "mergeHistoryFiles parse (mergeHistoryFiles parse a b) b = mergeHistoryFiles parse a b"
  by (rule merge_fixed) (simp add: merge_covers_remote)

lemma merge_two_stage:
  "map_of (mergedEntries parse (mergeHistoryFiles parse a b) c)
    = map_of (parseLines parse (str_split CHR 0x0A c) (mergedEntries parse a b))"
proof -
  from reparse_merge[of parse a b] obtain E' where
    E': "historyEntries parse (mergeHistoryFiles parse a b) = E'"
      "map_of E' = map_of (mergedEntries parse a b)" by blast
  show ?thesis
    unfolding mergedEntries_onto[of parse "mergeHistoryFiles parse a b" c] E'(1)
      parseLines_fold validEntries_def[symmetric]
    by (rule map_of_fold_put_cong[OF E'(2)])
qed

lemma mergeHosts_keeps_dominated:
  "dominated (historyEntries parse x) e
    \<Longrightarrow> dominated (historyEntries parse (mergeHosts parse hostname hosts x)) e"
proof (induction hosts arbitrary: x)
  case Nil
  then show ?case by simp
next
  case (Cons h rest)
  obtain host d where h: "h = (host, d)" by (cases h)
  show ?case
  proof (cases "host = hostname")
    case True
    then show ?thesis unfolding h using Cons.IH[OF Cons.prems] by simp
  next
    case False
    show ?thesis
    proof (cases d)
      case (Inl err)
      then show ?thesis unfolding h using False Cons.IH[OF Cons.prems] by simp
    next
      case (Inr r)
      have "dominated (historyEntries parse (mergeHistoryFiles parse x r)) e"
        using Cons.prems by (rule merge_keeps_dominated)
      from Cons.IH[OF this] show ?thesis unfolding h using False Inr by simp
    qed
  qed
qed

lemma mergeHosts_covers:
  assumes "(host, Inr r) \<in> set hosts" and "host \<noteq> hostname"
    and "e \<in> set (validEntries parse r)"
  shows "dominated (historyEntries parse (mergeHosts parse hostname hosts x)) e"
  using assms(1)
proof (induction hosts arbitrary: x)
  case Nil
  then show ?case by simp
next
  case (Cons h rest)
  obtain host' d where h: "h = (host', d)" by (cases h)
  show ?case
  proof (cases "h = (host, Inr r)")
    case True
    have "dominated (historyEntries parse (mergeHistoryFiles parse x r)) e"
      using assms(3) by (rule merge_covers_remote)
    then have "dominated (historyEntries parse
        (mergeHosts parse hostname rest (mergeHistoryFiles parse x r))) e"
      by (rule mergeHosts_keeps_dominated)
    then show ?thesis unfolding True using assms(2) by simp
  next
    case False
    then have m: "(host, Inr r) \<in> set rest" using Cons.prems by simp
    show ?thesis
    proof (cases "host' = hostname")
      case True
      then show ?thesis unfolding h using Cons.IH[OF m] by simp
    next
      case nh: False
      show ?thesis
      proof (cases d)
        case (Inl err)
        then show ?thesis unfolding h using nh Cons.IH[OF m] by simp
      next
        case (Inr r')
        then show ?thesis unfolding h using nh Cons.IH[OF m] by simp
      qed
    qed
  qed
qed

lemma mergeHosts_shape:
  "(\<forall>y. mergeHosts parse hostname hosts y = y)
    \<or> (\<exists>a b. mergeHosts parse hostname hosts x = mergeHistoryFiles parse a b)"
proof (induction hosts arbitrary: x)
  case Nil
  then show ?case by simp
next
  case (Cons h rest)
  obtain host d where h: "h = (host, d)" by (cases h)
  show ?case
  proof (cases "host = hostname \<or> isl d")
    case True
    then have skip: "\<And>y. mergeHosts parse hostname (h # rest) y = mergeHosts parse hostname rest y"
      unfolding h by (cases d) auto
    show ?thesis unfolding skip by (rule Cons.IH)
  next
    case False
    then obtain r where r: "d = Inr r" and nh: "host \<noteq> hostname" by (cases d) auto
    have step: "mergeHosts parse hostname (h # rest) x
        = mergeHosts parse hostname rest (mergeHistoryFiles parse x r)"
      unfolding h using r nh by simp
    from Cons.IH[of "mergeHistoryFiles parse x r"]
    show ?thesis
    proof
      assume "\<forall>y. mergeHosts parse hostname rest y = y"
      then have "mergeHosts parse hostname (h # rest) x = mergeHistoryFiles parse x r"
        unfolding step by simp
      then show ?thesis by blast
    next
      assume "\<exists>a b. mergeHosts parse hostname rest (mergeHistoryFiles parse x r)
          = mergeHistoryFiles parse a b"
      then show ?thesis unfolding step by blast
    qed
  qed
qed

lemma mergeHosts_fixed_if_covered:
  assumes "\<And>host r e. (host, Inr r) \<in> set hosts \<Longrightarrow> host \<noteq> hostname
      \<Longrightarrow> e \<in> set (validEntries parse r)
      \<Longrightarrow> dominated (historyEntries parse (mergeHistoryFiles parse a b)) e"
  shows "mergeHosts parse hostname hosts (mergeHistoryFiles parse a b) = mergeHistoryFiles parse a b"
  using assms
proof (induction hosts)
  case Nil
  then show ?case by simp
next
  case (Cons h rest)
  obtain host d where h: "h = (host, d)" by (cases h)
  have rest: "\<And>host r e. (host, Inr r) \<in> set rest \<Longrightarrow> host \<noteq> hostname
      \<Longrightarrow> e \<in> set (validEntries parse r)
      \<Longrightarrow> dominated (historyEntries parse (mergeHistoryFiles parse a b)) e"
  proof -
    fix host r e
    assume "(host, Inr r) \<in> set rest" "host \<noteq> hostname" "e \<in> set (validEntries parse r)"
    then show "dominated (historyEntries parse (mergeHistoryFiles parse a b)) e"
      using Cons.prems[of host r e] by simp
  qed
  show ?case
  proof (cases "host = hostname \<or> isl d")
    case True
    then have "mergeHosts parse hostname (h # rest) (mergeHistoryFiles parse a b)
        = mergeHosts parse hostname rest (mergeHistoryFiles parse a b)"
      unfolding h by (cases d) auto
    then show ?thesis using Cons.IH[OF rest] by simp
  next
    case False
    then obtain r where r: "d = Inr r" and nh: "host \<noteq> hostname" by (cases d) auto
    have "\<forall>e \<in> set (validEntries parse r).
        dominated (historyEntries parse (mergeHistoryFiles parse a b)) e"
      using Cons.prems[of host r] nh unfolding h r by simp
    then have fx: "mergeHistoryFiles parse (mergeHistoryFiles parse a b) r
        = mergeHistoryFiles parse a b"
      by (rule merge_fixed)
    have "mergeHosts parse hostname (h # rest) (mergeHistoryFiles parse a b)
        = mergeHosts parse hostname rest (mergeHistoryFiles parse a b)"
      unfolding h using r nh fx by simp
    then show ?thesis using Cons.IH[OF rest] by simp
  qed
qed

lemma mergeHosts_fixed:
  "mergeHosts parse hostname hosts (mergeHosts parse hostname hosts x)
    = mergeHosts parse hostname hosts x"
proof -
  let ?M = "mergeHosts parse hostname hosts x"
  from mergeHosts_shape[of parse hostname hosts x]
  show ?thesis
  proof
    assume "\<forall>y. mergeHosts parse hostname hosts y = y"
    then show ?thesis by simp
  next
    assume "\<exists>a b. ?M = mergeHistoryFiles parse a b"
    then obtain a b where ab: "?M = mergeHistoryFiles parse a b" by blast
    have "mergeHosts parse hostname hosts (mergeHistoryFiles parse a b)
        = mergeHistoryFiles parse a b"
    proof (rule mergeHosts_fixed_if_covered)
      fix host r e
      assume "(host, Inr r) \<in> set hosts" "host \<noteq> hostname" "e \<in> set (validEntries parse r)"
      then have "dominated (historyEntries parse ?M) e" by (rule mergeHosts_covers)
      then show "dominated (historyEntries parse (mergeHistoryFiles parse a b)) e"
        unfolding ab .
    qed
    then show ?thesis unfolding ab .
  qed
qed

lemma sorted_desc:
  "sorted_wrt (\<lambda>a b. h_timestamp a \<ge> h_timestamp b) (sort_key (\<lambda>e. - h_timestamp e) xs)"
proof -
  have "sorted (map (\<lambda>e. - h_timestamp e) (sort_key (\<lambda>e. - h_timestamp e) xs))"
    by (rule sorted_sort_key)
  then show ?thesis by (simp add: sorted_wrt_map)
qed

subsection \<open>The names union\<close>




subsection \<open>Deletion\<close>

lemma request_sends:
  "\<exists>es. trace (snd (request srv m p None st)) = trace st @ Sent m p # es
      \<and> set es \<subseteq> insert (Sent m p) (range Backoff)"
proof -
  obtain r st2 where f: "fetch srv m p (throttle st) = (r, st2)"
    by (cases "fetch srv m p (throttle st)")
  have s2: "trace st2 = trace st @ [Sent m p]"
    using f fetch_simps(4)[of srv m p "throttle st"] by simp
  show ?thesis
  proof (cases "r = Inr 503")
    case False
    have "request_loop srv m p 3 0 st = (r, st2)"
      using f False by (cases r) (auto simp add: request_loop.simps[of srv m p 3 0 st])
    then have "trace (snd (request srv m p None st)) = trace st @ Sent m p # []"
      using s2 by (simp add: request_def)
    then show ?thesis by (intro exI[of _ "[]"]) simp
  next
    case True
    have step: "request_loop srv m p 3 0 st = request_loop srv m p 3 (Suc 0) (slowDown 0 st2)"
      using f True by (simp add: request_loop.simps[of srv m p 3 0 st])
    from request_loop_shape[of srv m p 3 "Suc 0" "slowDown 0 st2"] obtain es where
      es: "trace (snd (request_loop srv m p 3 (Suc 0) (slowDown 0 st2)))
            = trace (slowDown 0 st2) @ es"
        "set es \<subseteq> insert (Sent m p) (range Backoff)" by blast
    have t: "trace (snd (request srv m p None st))
        = trace st @ Sent m p # (Backoff (min (3000 * 2 ^ 0) 30000) # es)"
      unfolding request_def using step es(1) s2 by simp
    have "set (Backoff (min (3000 * 2 ^ 0) 30000) # es) \<subseteq> insert (Sent m p) (range Backoff)"
      using es(2) by auto
    then show ?thesis using t by blast
  qed
qed

lemma delete_sends:
  "\<exists>es. trace (snd (delete srv p st)) = trace st @ Sent ''DELETE'' p # es
      \<and> set es \<subseteq> insert (Sent ''DELETE'' p) (range Backoff)"
  using request_sends[of srv "''DELETE''" p st]
  by (auto simp add: delete_def split: prod.split sum.split)

lemma delete_result:
  "fst (delete srv p st) =
     (case fst (request srv ''DELETE'' p None st) of
        Inl e \<Rightarrow> Inl e
      | Inr status \<Rightarrow>
          if status < 400 \<or> status = 404 then Inr () else Inl (DeleteFailed status))"
  by (auto simp add: delete_def split: prod.split sum.split)

lemma str_split_snoc:
  "c \<notin> set f \<Longrightarrow> str_split c (x @ c # f) = str_split c x @ [f]"
proof (induction x)
  case Nil
  then show ?case by (simp add: str_split_plain)
next
  case (Cons a x)
  obtain h t where ht: "str_split c x = h # t" by (cases "str_split c x") simp_all
  show ?case using Cons ht by simp
qed

lemma toSlashes_plain: "CHR 0x5C \<notin> set s \<Longrightarrow> toSlashes s = s"
  unfolding toSlashes_def by (induction s) auto

lemma toSlashes_append: "toSlashes (a @ b) = toSlashes a @ toSlashes b"
  by (simp add: toSlashes_def)

lemma deletePath_session:
  assumes "CHR ''/'' \<notin> set projectDir" "CHR 0x5C \<notin> set projectDir"
    and "CHR ''/'' \<notin> set fileName" "CHR 0x5C \<notin> set fileName"
  shows "deletePath hostname (path_join (path_join projectsDir projectDir) fileName)
      = ''hosts/'' @ hostname @ ''/projects/'' @ projectDir @ ''/'' @ fileName"
proof -
  have t: "toSlashes (path_join (path_join projectsDir projectDir) fileName)
      = (toSlashes projectsDir @ CHR ''/'' # projectDir) @ CHR ''/'' # fileName"
    using assms by (simp add: path_join_def toSlashes_append toSlashes_plain)
  have s: "str_split CHR ''/'' ((toSlashes projectsDir @ CHR ''/'' # projectDir) @ CHR ''/'' # fileName)
      = (str_split CHR ''/'' (toSlashes projectsDir) @ [projectDir]) @ [fileName]"
    unfolding str_split_snoc[OF assms(3)] str_split_snoc[OF assms(1)] ..
  show ?thesis
    unfolding deletePath_def t s Let_def by (simp add: nth_append)
qed

lemma sample_deletePath:
  "deletePath ''H1'' ''/c/.claude/hosts/H2/projects/p2/s2.jsonl'' = ''hosts/H1/projects/p2/s2.jsonl''"
  by (simp add: deletePath_def toSlashes_def)

lemma delete_404:
  assumes "srv (sent st) ''DELETE'' p = Inr 404"
  shows "fst (delete srv p st) = Inr ()
    \<and> trace (snd (delete srv p st)) = trace st @ [Sent ''DELETE'' p]"
proof -
  have "srv (sent st) ''DELETE'' p \<noteq> Inr 503" using assms by simp
  note R = request_once[of srv st "''DELETE''" p, OF this]
  obtain r st' where q: "request srv ''DELETE'' p None st = (r, st')"
    by (cases "request srv ''DELETE'' p None st")
  have r: "r = Inr 404" using R q assms by simp
  have "delete srv p st = (Inr (), st')" unfolding delete_def q r by simp
  then show ?thesis using R q by simp
qed

subsection \<open>The requests that change the remote store\<close>

lemma str_split_at: "str_split c (a @ c # b) = str_split c a @ str_split c b"
proof (induction a)
  case Nil
  then show ?case by simp
next
  case (Cons x xs)
  obtain h t where ht: "str_split c xs = h # t" by (cases "str_split c xs") simp_all
  show ?case using Cons.IH by (simp add: ht)
qed

lemma str_join_split: "str_join c (str_split c s) = s"
proof (induction s)
  case Nil
  then show ?case by simp
next
  case (Cons x xs)
  obtain h t where ht: "str_split c xs = h # t" by (cases "str_split c xs") simp_all
  show ?case using Cons.IH by (cases t) (simp_all add: ht)
qed

lemma str_join_Cons: "str_join c (l # ls) = l @ concat (map (\<lambda>y. c # y) ls)"
  by (induction ls arbitrary: l) simp_all

lemma str_join_append:
  "xs \<noteq> [] \<Longrightarrow> str_join c (xs @ ys) = str_join c xs @ concat (map (\<lambda>y. c # y) ys)"
  by (cases xs) (simp_all add: str_join_Cons)

lemma dirname_at:
  "dirname (a @ CHR ''/'' # b)
     = a @ concat (map (\<lambda>y. CHR ''/'' # y) (butlast (str_split CHR ''/'' b)))"
proof -
  have l: "\<not> length (str_split CHR ''/'' a @ str_split CHR ''/'' b) \<le> 1"
    using str_split_nonempty[of "CHR ''/''" a] str_split_nonempty[of "CHR ''/''" b]
    by (cases "str_split CHR ''/'' a"; cases "str_split CHR ''/'' b") simp_all
  have "butlast (str_split CHR ''/'' a @ str_split CHR ''/'' b)
      = str_split CHR ''/'' a @ butlast (str_split CHR ''/'' b)"
    by (simp add: butlast_append)
  then show ?thesis
    unfolding dirname_def str_split_at Let_def using l
    by (simp add: str_join_append str_join_split)
qed

lemma ancestorsFrom_prefix:
  "d \<in> set (ancestorsFrom c parts) \<Longrightarrow> prefix (c @ ''/'') d"
proof (induction parts arbitrary: c)
  case Nil
  then show ?case by simp
next
  case (Cons part parts)
  from Cons.prems have "d = c @ ''/'' @ part \<or> d \<in> set (ancestorsFrom (c @ ''/'' @ part) parts)"
    by simp
  then show ?case
  proof
    assume "d = c @ ''/'' @ part"
    then show ?thesis by simp
  next
    assume "d \<in> set (ancestorsFrom (c @ ''/'' @ part) parts)"
    from Cons.IH[OF this] have "prefix ((c @ ''/'') @ (part @ ''/'')) d" by simp
    then show ?thesis using append_prefixD by blast
  qed
qed

lemma own_ancestors:
  assumes "hostname \<noteq> []" and "CHR ''/'' \<notin> set hostname"
    and "d \<in> set (ancestorPrefixes (''/hosts/'' @ hostname @ CHR ''/'' # rest))"
  shows "d = ''/hosts'' \<or> underOwnPrefix hostname d"
proof -
  have h: "CHR ''/'' \<notin> set ''hosts''" by simp
  have "str_split CHR ''/'' (''/hosts/'' @ hostname @ CHR ''/'' # rest)
      = str_split CHR ''/'' ([] @ CHR ''/'' # (''hosts'' @ CHR ''/'' # (hostname @ CHR ''/'' # rest)))"
    by simp
  also have "\<dots> = [] # ''hosts'' # hostname # str_split CHR ''/'' rest"
    unfolding str_split_at using str_split_plain[OF h] str_split_plain[OF assms(2)] by simp
  finally have "ancestorPrefixes (''/hosts/'' @ hostname @ CHR ''/'' # rest)
      = ''/hosts'' # (''/hosts/'' @ hostname)
        # ancestorsFrom (''/hosts/'' @ hostname) (filter (\<lambda>p. p \<noteq> []) (str_split CHR ''/'' rest))"
    unfolding ancestorPrefixes_def using assms(1) by simp
  with assms(3) consider "d = ''/hosts''" | "d = ''/hosts/'' @ hostname"
    | "d \<in> set (ancestorsFrom (''/hosts/'' @ hostname) (filter (\<lambda>p. p \<noteq> []) (str_split CHR ''/'' rest)))"
    by auto
  then show ?thesis
  proof cases
    case 1
    then show ?thesis by simp
  next
    case 2
    then show ?thesis by (simp add: underOwnPrefix_def hostPrefix_def)
  next
    case 3
    from ancestorsFrom_prefix[OF this] show ?thesis
      by (simp add: underOwnPrefix_def hostPrefix_def startsWith_def)
  qed
qed

lemma ownWrites_append [simp]:
  "ownWrites hostname dirs (a @ b) = (ownWrites hostname dirs a \<and> ownWrites hostname dirs b)"
  by (simp add: ownWrites_def)

lemma ownWrites_Nil [simp]: "ownWrites hostname dirs []"
  by (simp add: ownWrites_def)

lemma mkcolOnly_own:
  assumes "mkcolOnly ds es" and "\<And>d. d \<in> ds \<Longrightarrow> d \<in> dirs"
  shows "ownWrites hostname dirs es"
  using assms unfolding mkcolOnly_def ownWrites_def list_all_iff
  by (auto split: event.splits)

lemma mkdirp_own:
  assumes "set (ancestorPrefixes p) \<subseteq> dirs"
  shows "\<exists>es. trace (snd (mkdirp srv p st)) = trace st @ es \<and> ownWrites hostname dirs es"
proof -
  let ?parts = "filter (\<lambda>p. p \<noteq> []) (str_split CHR ''/'' p)"
  from mkdirp_loop_shape[of st srv "[]" ?parts] obtain es where
    t: "trace (snd (mkdirp_loop srv [] ?parts st)) = trace st @ es"
    and m: "mkcolOnly (set (ancestorsFrom [] ?parts) - knownDirs st) es" by blast
  have "ownWrites hostname dirs es"
  proof (rule mkcolOnly_own[OF m])
    fix d assume "d \<in> set (ancestorsFrom [] ?parts) - knownDirs st"
    then have "d \<in> set (ancestorPrefixes p)" by (simp add: ancestorPrefixes_def)
    then show "d \<in> dirs" using assms by blast
  qed
  with t show ?thesis unfolding mkdirp_def by blast
qed

lemma upload_own:
  assumes "underOwnPrefix hostname p \<or> p = ''/session-names.json''"
  shows "\<exists>es. trace (snd (upload srv p st)) = trace st @ es \<and> ownWrites hostname dirs es"
proof -
  from upload_shape[of srv p st] obtain es where
    t: "trace (snd (upload srv p st)) = trace st @ es"
    and s: "set es \<subseteq> insert (Sent ''PUT'' p) (range Backoff)" by blast
  have "ownWrites hostname dirs es"
    using s assms unfolding ownWrites_def list_all_iff by (auto split: event.splits)
  with t show ?thesis by blast
qed

lemma delete_own:
  assumes "underOwnPrefix hostname p"
  shows "\<exists>es. trace (snd (delete srv p st)) = trace st @ es \<and> ownWrites hostname dirs es"
proof -
  from delete_shape[of srv p st] obtain es where
    t: "trace (snd (delete srv p st)) = trace st @ es"
    and s: "set es \<subseteq> insert (Sent ''DELETE'' p) (range Backoff)" by blast
  have "ownWrites hostname dirs es"
    using s assms unfolding ownWrites_def list_all_iff by (auto split: event.splits)
  with t show ?thesis by blast
qed

lemma uploadFile_own:
  assumes anc: "\<forall>rest. set (ancestorPrefixes (''/hosts/'' @ hostname @ CHR ''/'' # rest))
      \<subseteq> dirs"
    and r: "relativePath change = ''hosts/'' @ hostname @ ''/projects/'' @ rest"
  shows "\<exists>es. trace (snd (uploadFile srv readFileSync change st)) = trace st @ es
    \<and> ownWrites hostname dirs es"
proof (cases "localPath change")
  case None
  then show ?thesis by (simp add: uploadFile_def)
next
  case (Some lp)
  let ?z = "concat (map (\<lambda>y. CHR ''/'' # y) (butlast (str_split CHR ''/'' rest)))"
  have "relativePath change = (''hosts/'' @ hostname @ ''/projects'') @ CHR ''/'' # rest"
    using r by simp
  then have "dirname (relativePath change) = (''hosts/'' @ hostname @ ''/projects'') @ ?z"
    using dirname_at[of "''hosts/'' @ hostname @ ''/projects''" rest] by simp
  then have d: "''/'' @ dirname (relativePath change)
      = ''/hosts/'' @ hostname @ CHR ''/'' # (''projects'' @ ?z)" by simp
  obtain r1 st1 where m: "mkdirp srv (''/'' @ dirname (relativePath change)) st = (r1, st1)"
    by (cases "mkdirp srv (''/'' @ dirname (relativePath change)) st")
  have "\<exists>es. trace (snd (mkdirp srv (''/'' @ dirname (relativePath change)) st)) = trace st @ es
      \<and> ownWrites hostname dirs es"
    unfolding d by (rule mkdirp_own) (rule anc[rule_format])
  then obtain es1 where
    t1: "trace st1 = trace st @ es1" and o1: "ownWrites hostname dirs es1"
    unfolding m by auto
  have u: "underOwnPrefix hostname (''/'' @ relativePath change)"
    unfolding r by (simp add: underOwnPrefix_def hostPrefix_def startsWith_def)
  from upload_own[of hostname "''/'' @ relativePath change" srv st1 dirs] u obtain es2 where
    t2: "trace (snd (upload srv (''/'' @ relativePath change) st1)) = trace st1 @ es2"
    and o2: "ownWrites hostname dirs es2" by blast
  show ?thesis
  proof (cases r1)
    case (Inl e)
    then show ?thesis using Some m t1 o1 by (simp add: uploadFile_def)
  next
    case (Inr u1)
    show ?thesis
    proof (cases "readFileSync lp")
      case (Inl e)
      then show ?thesis using Some m Inr t1 o1 by (simp add: uploadFile_def)
    next
      case (Inr bytes)
      have "trace (snd (uploadFile srv readFileSync change st)) = trace st @ (es1 @ es2)"
        using Some m \<open>r1 = Inr u1\<close> Inr t1 t2 by (simp add: uploadFile_def)
      moreover have "ownWrites hostname dirs (es1 @ es2)" using o1 o2 by simp
      ultimately show ?thesis by blast
    qed
  qed
qed

lemma uploadFiles_own:
  assumes anc: "\<forall>rest. set (ancestorPrefixes (''/hosts/'' @ hostname @ CHR ''/'' # rest))
      \<subseteq> dirs"
    and "\<And>c. c \<in> set changes
          \<Longrightarrow> \<exists>rest. relativePath c = ''hosts/'' @ hostname @ ''/projects/'' @ rest"
  shows "\<exists>es. trace (snd (uploadFiles srv readFileSync changes st)) = trace st @ es
    \<and> ownWrites hostname dirs es"
  using assms(2)
proof (induction changes arbitrary: st)
  case Nil
  then show ?case by simp
next
  case (Cons c cs)
  from Cons.prems[of c] obtain rest where
    r: "relativePath c = ''hosts/'' @ hostname @ ''/projects/'' @ rest" by auto
  obtain r1 st1 where u: "uploadFile srv readFileSync c st = (r1, st1)"
    by (cases "uploadFile srv readFileSync c st")
  from uploadFile_own[of hostname dirs c rest srv readFileSync st, OF anc r] obtain es1 where
    t1: "trace st1 = trace st @ es1" and o1: "ownWrites hostname dirs es1"
    unfolding u by auto
  show ?case
  proof (cases r1)
    case (Inl e)
    then show ?thesis using u t1 o1 by simp
  next
    case (Inr u1)
    have "\<And>c. c \<in> set cs
        \<Longrightarrow> \<exists>rest. relativePath c = ''hosts/'' @ hostname @ ''/projects/'' @ rest"
      using Cons.prems by simp
    from Cons.IH[OF this, of st1] obtain es2 where
      t2: "trace (snd (uploadFiles srv readFileSync cs st1)) = trace st1 @ es2"
      and o2: "ownWrites hostname dirs es2" by blast
    have "trace (snd (uploadFiles srv readFileSync (c # cs) st)) = trace st @ (es1 @ es2)"
      using u Inr t1 t2 by simp
    moreover have "ownWrites hostname dirs (es1 @ es2)" using o1 o2 by simp
    ultimately show ?thesis by blast
  qed
qed

lemma scanLocalFiles_paths:
  assumes "q \<in> set (scanLocalFiles fs hostname cacheDir clock dirs)"
  shows "\<exists>rest. fst q = ''hosts/'' @ hostname @ ''/projects/'' @ rest"
proof (rule scanClaudeDirs_sound[where files="[]" and fs=fs and hostname=hostname
      and cacheDir=cacheDir and clock=clock and dirs=dirs and q=q])
  show "\<And>q. q \<in> set [] \<Longrightarrow> \<exists>rest. fst q = ''hosts/'' @ hostname @ ''/projects/'' @ rest"
    by simp
  show "\<And>dir pd fl stat. dir \<in> set dirs \<Longrightarrow> dir \<noteq> cacheDir
      \<Longrightarrow> scannable fs clock dir pd fl stat
      \<Longrightarrow> \<exists>rest. fst (scannedFile hostname dir pd fl stat)
            = ''hosts/'' @ hostname @ ''/projects/'' @ rest"
    by (simp add: scannedFile_def)
  show "q \<in> set (scanClaudeDirs fs hostname cacheDir clock dirs [])"
    using assms by (simp add: scanLocalFiles_def)
qed

lemma planned_paths:
  assumes "c \<in> set (computeUploadChanges mf (scanLocalFiles fs hostname cacheDir clock dirs) remoteFiles)"
  shows "\<exists>rest. relativePath c = ''hosts/'' @ hostname @ ''/projects/'' @ rest"
proof -
  from computeUploadChanges_from[OF assms] obtain rel local where
    m: "(rel, local) \<in> set (scanLocalFiles fs hostname cacheDir clock dirs)"
    and c: "c = uploadChange rel local" by blast
  from scanLocalFiles_paths[OF m] show ?thesis unfolding c by simp
qed

lemma deletePath_own: "underOwnPrefix hostname (''/'' @ deletePath hostname filePath)"
  by (simp add: deletePath_def Let_def underOwnPrefix_def hostPrefix_def startsWith_def)

lemma runWrite_own:
  assumes anc: "\<forall>rest. set (ancestorPrefixes (''/hosts/'' @ hostname @ CHR ''/'' # rest))
      \<subseteq> created"
  shows "\<exists>es. trace (runWrite srv hostname step st) = trace st @ es
    \<and> ownWrites hostname created es"
proof (cases step)
  case Prepare
  have h: "hostPrefix hostname @ ''/projects'' = ''/hosts/'' @ hostname @ CHR ''/'' # ''projects''"
    by (simp add: hostPrefix_def)
  have "\<exists>es. trace (snd (mkdirp srv (hostPrefix hostname @ ''/projects'') st)) = trace st @ es
      \<and> ownWrites hostname created es"
    unfolding h by (rule mkdirp_own) (rule anc[rule_format])
  then show ?thesis using Prepare by simp
next
  case (Uploads fs cacheDir clock dirs mf myRemoteFiles readFileSync)
  show ?thesis unfolding Uploads runWrite.simps
    by (rule uploadFiles_own[OF anc]) (rule planned_paths)
next
  case MachineDescriptor
  have "underOwnPrefix hostname (hostPrefix hostname @ ''/machine.json'')"
    by (simp add: underOwnPrefix_def startsWith_def)
  then show ?thesis using MachineDescriptor upload_own[of hostname _ srv st created] by simp
next
  case HistoryUpload
  have "underOwnPrefix hostname (hostPrefix hostname @ ''/history.jsonl'')"
    by (simp add: underOwnPrefix_def startsWith_def)
  then show ?thesis using HistoryUpload upload_own[of hostname _ srv st created] by simp
next
  case NamesUpload
  then show ?thesis
    using upload_own[of hostname "''/session-names.json''" srv st created] by simp
next
  case (DeleteRemote filePath)
  then show ?thesis
    using delete_own[OF deletePath_own, of srv hostname filePath st created] by simp
qed

lemma runWrites_own:
  assumes anc: "\<forall>rest. set (ancestorPrefixes (''/hosts/'' @ hostname @ CHR ''/'' # rest))
      \<subseteq> created"
  shows "\<exists>es. trace (fold (runWrite srv hostname) steps st) = trace st @ es
    \<and> ownWrites hostname created es"
proof (induction steps arbitrary: st)
  case Nil
  then show ?case by simp
next
  case (Cons step steps)
  from runWrite_own[of hostname created srv step st, OF anc] obtain es1 where
    t1: "trace (runWrite srv hostname step st) = trace st @ es1"
    and o1: "ownWrites hostname created es1" by blast
  from Cons.IH[of "runWrite srv hostname step st"] obtain es2 where
    t2: "trace (fold (runWrite srv hostname) steps (runWrite srv hostname step st))
        = trace (runWrite srv hostname step st) @ es2"
    and o2: "ownWrites hostname created es2" by blast
  have "trace (fold (runWrite srv hostname) (step # steps) st) = trace st @ (es1 @ es2)"
    using t1 t2 by simp
  moreover have "ownWrites hostname created (es1 @ es2)" using o1 o2 by simp
  ultimately show ?case by blast
qed

lemma ownWrites_mono:
  "ownWrites hostname ds es \<Longrightarrow> ds \<subseteq> ds' \<Longrightarrow> ownWrites hostname ds' es"
  unfolding ownWrites_def list_all_iff by (auto split: event.splits)

lemma ownWrites_events:
  assumes "ownWrites hostname ds es"
  shows "(\<forall>p. Sent ''PUT'' p \<in> set es
            \<longrightarrow> underOwnPrefix hostname p \<or> p = ''/session-names.json'')
    \<and> (\<forall>p. Sent ''DELETE'' p \<in> set es \<longrightarrow> underOwnPrefix hostname p)
    \<and> (\<forall>p. Sent ''MKCOL'' p \<in> set es \<longrightarrow> p \<in> ds)
    \<and> (\<forall>m p. Sent m p \<in> set es \<longrightarrow> m = ''PUT'' \<or> m = ''DELETE'' \<or> m = ''MKCOL'')"
  using assms unfolding ownWrites_def list_all_iff by (auto split: event.splits)

lemma upload_sends:
  "\<exists>es. trace (snd (upload srv p st)) = trace st @ Sent ''PUT'' p # es"
  using request_sends[of srv "''PUT''" p st]
  by (auto simp add: upload_def split: prod.split sum.split)

subsection \<open>The example inputs, evaluated\<close>

lemma exampleLister_hosts: "listRemoteHosts exampleLister = [''H1'', ''H2'']"
  by (simp add: listRemoteHosts_def exampleLister_def stripTrailingSlash_def)

lemma exampleLister_H2:
  "scanHostRemoteFiles exampleLister ''H2'' =
     [(''hosts/H2/projects/p2/s2.jsonl'',
       \<lparr>path = ''s2.jsonl'', f_size = 700, lastModified = 9000, isDirectory = False\<rparr>)]"
  by (simp add: scanHostRemoteFiles_def exampleLister_def stripTrailingSlash_def
      endsWith_def startsWith_def suffix_def)




lemma sample_split_local:
  "str_split CHR 0x0A ''a 1\<newline>zz\<newline>? 9\<newline>b 2'' = [''a 1'', ''zz'', ''? 9'', ''b 2'']"
  by simp

lemma sample_split_remote: "str_split CHR 0x0A ''a 3\<newline>'' = [''a 3'', []]"
  by simp

lemma sample_entries:
  "mergedEntries sampleParse ''a 1\<newline>zz\<newline>? 9\<newline>b 2'' ''a 3\<newline>'' =
     [(''a'', \<lparr>line = ''a 3'', h_timestamp = 3\<rparr>), (''b'', \<lparr>line = ''b 2'', h_timestamp = 2\<rparr>)]"
  unfolding mergedEntries_def sample_split_local sample_split_remote
  by (simp add: sampleParse_def isBlank_def)

lemma sample_merge:
  "mergeHistoryFiles sampleParse ''a 1\<newline>zz\<newline>? 9\<newline>b 2'' ''a 3\<newline>'' = ''a 3\<newline>b 2\<newline>''"
  unfolding mergeHistoryFiles_def sample_entries by simp








section \<open>The claims\<close>

text \<open>
  C1. For every locally scanned file, an upload of its relative path is planned exactly
  when there is no remote counterpart, or no manifest entry, or the recorded size differs,
  or the modification time exceeds the recorded one by more than 1000 ms; the planned
  change is then that very file's. A file with a remote counterpart whose size is
  unchanged and whose modification time differs from the recorded one by at most 1000 ms
  is not planned.
\<close>

theorem computeUploadChanges_plans:
  assumes "distinct (map fst localFiles)"
    and "(rel, local) \<in> set localFiles"
  shows "((\<exists>c \<in> set (computeUploadChanges mf localFiles remoteFiles). relativePath c = rel)
      \<longleftrightarrow> (map_of remoteFiles rel = None \<or> getEntry mf rel = None
           \<or> (\<exists>e. getEntry mf rel = Some e
                \<and> (l_size local \<noteq> m_size e \<or> l_mtimeMs local - m_mtimeMs e > 1000))))
    \<and> (\<forall>c \<in> set (computeUploadChanges mf localFiles remoteFiles).
          relativePath c = rel \<longrightarrow> c = uploadChange rel local)
    \<and> (\<forall>remote e. map_of remoteFiles rel = Some remote \<and> getEntry mf rel = Some e
          \<and> l_size local = m_size e \<and> \<bar>l_mtimeMs local - m_mtimeMs e\<bar> \<le> 1000
          \<longrightarrow> \<not> (\<exists>c \<in> set (computeUploadChanges mf localFiles remoteFiles).
                   relativePath c = rel))"
proof -
  let ?due = "\<lambda>local. map_of remoteFiles rel = None \<or> getEntry mf rel = None
           \<or> (\<exists>e. getEntry mf rel = Some e
                \<and> (l_size local \<noteq> m_size e \<or> l_mtimeMs local > m_mtimeMs e + 1000))"
  have uniq: "\<And>l. (rel, l) \<in> set localFiles \<Longrightarrow> l = local"
    using assms by (meson eq_key_imp_eq_value)
  have in_plan: "\<And>c. c \<in> set (computeUploadChanges mf localFiles remoteFiles)
      \<Longrightarrow> relativePath c = rel \<Longrightarrow> c = uploadChange rel local \<and> ?due local"
  proof -
    fix c assume c: "c \<in> set (computeUploadChanges mf localFiles remoteFiles)"
      and r: "relativePath c = rel"
    from c obtain rel' l where
      c': "c = uploadChange rel' l" "(rel', l) \<in> set localFiles"
      and due: "map_of remoteFiles rel' = None \<or> getEntry mf rel' = None
           \<or> (\<exists>e. getEntry mf rel' = Some e
                \<and> (l_size l \<noteq> m_size e \<or> l_mtimeMs l > m_mtimeMs e + 1000))"
      unfolding set_computeUploadChanges by blast
    have "rel' = rel" using r c'(1) by simp
    moreover have "l = local" using uniq c'(2) \<open>rel' = rel\<close> by simp
    ultimately show "c = uploadChange rel local \<and> ?due local" using c'(1) due by simp
  qed
  have planned: "?due local \<Longrightarrow> uploadChange rel local \<in> set (computeUploadChanges mf localFiles remoteFiles)"
    unfolding set_computeUploadChanges using assms(2) by blast
  have one: "(\<exists>c \<in> set (computeUploadChanges mf localFiles remoteFiles). relativePath c = rel)
      \<longleftrightarrow> ?due local"
  proof
    assume "\<exists>c \<in> set (computeUploadChanges mf localFiles remoteFiles). relativePath c = rel"
    then obtain c where "c \<in> set (computeUploadChanges mf localFiles remoteFiles)"
      "relativePath c = rel" by (elim bexE)
    then show "?due local" using in_plan by simp
  next
    assume "?due local"
    then have "uploadChange rel local \<in> set (computeUploadChanges mf localFiles remoteFiles)"
      by (rule planned)
    then show "\<exists>c \<in> set (computeUploadChanges mf localFiles remoteFiles). relativePath c = rel"
      by (rule bexI[rotated]) simp
  qed
  have two: "\<forall>c \<in> set (computeUploadChanges mf localFiles remoteFiles).
          relativePath c = rel \<longrightarrow> c = uploadChange rel local"
    using in_plan by blast
  have three: "\<forall>remote e. map_of remoteFiles rel = Some remote \<and> getEntry mf rel = Some e
          \<and> l_size local = m_size e \<and> \<bar>l_mtimeMs local - m_mtimeMs e\<bar> \<le> 1000
          \<longrightarrow> \<not> ?due local"
    by auto
  have one': "(\<exists>c \<in> set (computeUploadChanges mf localFiles remoteFiles). relativePath c = rel)
      \<longleftrightarrow> (map_of remoteFiles rel = None \<or> getEntry mf rel = None
           \<or> (\<exists>e. getEntry mf rel = Some e
                \<and> (l_size local \<noteq> m_size e \<or> l_mtimeMs local - m_mtimeMs e > 1000)))"
    unfolding one by (simp add: less_diff_eq add.commute)
  show ?thesis
    using one' two three unfolding one by blast
qed


theorem computeUploadChanges_plans_witness:
  "distinct (map fst
      [(''hosts/H1/projects/p1/a.jsonl'',
        \<lparr>fullPath = ''/home/u/.claude/projects/p1/a.jsonl'', l_size = 500, l_mtimeMs = 5000\<rparr>)])
   \<and> (''hosts/H1/projects/p1/a.jsonl'',
        \<lparr>fullPath = ''/home/u/.claude/projects/p1/a.jsonl'', l_size = 500, l_mtimeMs = 5000\<rparr>)
      \<in> set [(''hosts/H1/projects/p1/a.jsonl'',
        \<lparr>fullPath = ''/home/u/.claude/projects/p1/a.jsonl'', l_size = 500, l_mtimeMs = 5000\<rparr>)]
   \<and> \<not> (\<exists>c \<in> set (computeUploadChanges
          [''hosts/H1/projects/p1/a.jsonl'' \<mapsto> \<lparr>m_size = 500, m_mtimeMs = 4000, syncedAt = 6000\<rparr>]
          [(''hosts/H1/projects/p1/a.jsonl'',
            \<lparr>fullPath = ''/home/u/.claude/projects/p1/a.jsonl'', l_size = 500, l_mtimeMs = 5000\<rparr>)]
          [(''hosts/H1/projects/p1/a.jsonl'',
            \<lparr>path = ''a.jsonl'', f_size = 500, lastModified = 6000, isDirectory = False\<rparr>)]).
        relativePath c = ''hosts/H1/projects/p1/a.jsonl'')
   \<and> (\<exists>c \<in> set (computeUploadChanges
          [''hosts/H1/projects/p1/a.jsonl'' \<mapsto> \<lparr>m_size = 500, m_mtimeMs = 3999, syncedAt = 6000\<rparr>]
          [(''hosts/H1/projects/p1/a.jsonl'',
            \<lparr>fullPath = ''/home/u/.claude/projects/p1/a.jsonl'', l_size = 500, l_mtimeMs = 5000\<rparr>)]
          [(''hosts/H1/projects/p1/a.jsonl'',
            \<lparr>path = ''a.jsonl'', f_size = 500, lastModified = 6000, isDirectory = False\<rparr>)]).
        relativePath c = ''hosts/H1/projects/p1/a.jsonl'')"
proof -
  let ?rel = "''hosts/H1/projects/p1/a.jsonl''"
  let ?local = "\<lparr>fullPath = ''/home/u/.claude/projects/p1/a.jsonl'', l_size = 500,
    l_mtimeMs = 5000\<rparr>"
  let ?info = "\<lparr>path = ''a.jsonl'', f_size = 500, lastModified = 6000, isDirectory = False\<rparr>"
  let ?e1 = "\<lparr>m_size = 500, m_mtimeMs = 4000, syncedAt = 6000\<rparr>"
  let ?e2 = "\<lparr>m_size = 500, m_mtimeMs = 3999, syncedAt = 6000\<rparr>"
  have d: "distinct (map fst [(?rel, ?local)])" by simp
  have m: "(?rel, ?local) \<in> set [(?rel, ?local)]" by simp
  note T1 = computeUploadChanges_plans[OF d m, of "[?rel \<mapsto> ?e1]" "[(?rel, ?info)]"]
  note T2 = computeUploadChanges_plans[OF d m, of "[?rel \<mapsto> ?e2]" "[(?rel, ?info)]"]
  have tol: "map_of [(?rel, ?info)] ?rel = Some ?info \<and> getEntry [?rel \<mapsto> ?e1] ?rel = Some ?e1
      \<and> l_size ?local = m_size ?e1 \<and> \<bar>l_mtimeMs ?local - m_mtimeMs ?e1\<bar> \<le> 1000"
    by (simp add: getEntry_def)
  have late: "getEntry [?rel \<mapsto> ?e2] ?rel = Some ?e2
      \<and> (l_size ?local \<noteq> m_size ?e2 \<or> l_mtimeMs ?local - m_mtimeMs ?e2 > 1000)"
    by (simp add: getEntry_def)
  have n1: "\<not> (\<exists>c \<in> set (computeUploadChanges [?rel \<mapsto> ?e1] [(?rel, ?local)] [(?rel, ?info)]).
        relativePath c = ?rel)"
    using T1 tol by blast
  have n2: "\<exists>c \<in> set (computeUploadChanges [?rel \<mapsto> ?e2] [(?rel, ?local)] [(?rel, ?info)]).
        relativePath c = ?rel"
    using T2 late by blast
  show ?thesis using d m n1 n2 by (intro conjI)
qed

text \<open>
  C2. For every remote file scanned under the prefix of a host other than this machine's,
  the download of that file is planned exactly when the cache has no copy at the mirrored
  path, or the manifest has no entry for the relative path, or the remote last-modified
  time exceeds the entry's \<open>syncedAt\<close> by more than 1000 ms. Every planned download is such
  a file of another host, and none lies under this machine's own host prefix (host names
  being single path segments).
\<close>

theorem downloadChanges_plans:
  "(host \<in> set (listRemoteHosts lst) \<and> host \<noteq> hostname
      \<and> (rel, info) \<in> set (scanHostRemoteFiles lst host)
     \<longrightarrow> (downloadChange rel info \<in> set (downloadChanges lst fs cacheDir mf hostname)
          \<longleftrightarrow> (\<not> existsSync fs (path_join cacheDir rel) \<or> getEntry mf rel = None
               \<or> (\<exists>e. getEntry mf rel = Some e \<and> lastModified info - syncedAt e > 1000))))
   \<and> (\<forall>c \<in> set (downloadChanges lst fs cacheDir mf hostname).
         \<exists>h r i. h \<in> set (listRemoteHosts lst) \<and> h \<noteq> hostname
           \<and> (r, i) \<in> set (scanHostRemoteFiles lst h) \<and> c = downloadChange r i)
   \<and> (CHR ''/'' \<notin> set hostname \<and> (\<forall>h \<in> set (listRemoteHosts lst). CHR ''/'' \<notin> set h)
     \<longrightarrow> (\<forall>c \<in> set (downloadChanges lst fs cacheDir mf hostname).
           \<not> startsWith (relativePath c) (''hosts/'' @ hostname @ ''/'')))"
proof -
  let ?plan = "set (downloadChanges lst fs cacheDir mf hostname)"
  let ?need = "\<lambda>rel info. \<not> existsSync fs (path_join cacheDir rel) \<or> getEntry mf rel = None
               \<or> (\<exists>e. getEntry mf rel = Some e \<and> lastModified info > syncedAt e + 1000)"
  have plan: "?plan = {downloadChange r i | h r i.
      h \<in> set (listRemoteHosts lst) \<and> h \<noteq> hostname
      \<and> (r, i) \<in> set (scanHostRemoteFiles lst h) \<and> ?need r i}"
    unfolding downloadChanges_def set_planDownloads set_planHostFiles by blast
  have inj: "\<And>r i r' i'. downloadChange r i = downloadChange r' i'
      \<Longrightarrow> r = r' \<and> lastModified i = lastModified i'"
    by (simp add: downloadChange_def)
  have one: "host \<in> set (listRemoteHosts lst) \<and> host \<noteq> hostname
      \<and> (rel, info) \<in> set (scanHostRemoteFiles lst host)
     \<longrightarrow> (downloadChange rel info \<in> ?plan \<longleftrightarrow> ?need rel info)"
  proof (intro impI iffI)
    assume "downloadChange rel info \<in> ?plan"
    then obtain h r i where "downloadChange rel info = downloadChange r i" "?need r i"
      unfolding plan by blast
    then show "?need rel info" using inj[of rel info r i] by simp
  next
    assume "host \<in> set (listRemoteHosts lst) \<and> host \<noteq> hostname
      \<and> (rel, info) \<in> set (scanHostRemoteFiles lst host)" and "?need rel info"
    then show "downloadChange rel info \<in> ?plan" unfolding plan by blast
  qed
  have one': "host \<in> set (listRemoteHosts lst) \<and> host \<noteq> hostname
      \<and> (rel, info) \<in> set (scanHostRemoteFiles lst host)
     \<longrightarrow> (downloadChange rel info \<in> ?plan
          \<longleftrightarrow> (\<not> existsSync fs (path_join cacheDir rel) \<or> getEntry mf rel = None
               \<or> (\<exists>e. getEntry mf rel = Some e \<and> lastModified info - syncedAt e > 1000)))"
    using one by (simp add: less_diff_eq add.commute)
  have two: "\<forall>c \<in> ?plan. \<exists>h r i. h \<in> set (listRemoteHosts lst) \<and> h \<noteq> hostname
           \<and> (r, i) \<in> set (scanHostRemoteFiles lst h) \<and> c = downloadChange r i"
    unfolding plan by blast
  have three: "CHR ''/'' \<notin> set hostname \<and> (\<forall>h \<in> set (listRemoteHosts lst). CHR ''/'' \<notin> set h)
     \<longrightarrow> (\<forall>c \<in> ?plan. \<not> startsWith (relativePath c) (''hosts/'' @ hostname @ ''/''))"
  proof (intro impI ballI)
    fix c
    assume ns: "CHR ''/'' \<notin> set hostname \<and> (\<forall>h \<in> set (listRemoteHosts lst). CHR ''/'' \<notin> set h)"
      and c: "c \<in> ?plan"
    from two c obtain h r i where h: "h \<in> set (listRemoteHosts lst)" "h \<noteq> hostname"
      "(r, i) \<in> set (scanHostRemoteFiles lst h)" "c = downloadChange r i" by blast
    from scanHostRemoteFiles_keys[OF h(3)] obtain rest where
      r: "r = ''hosts/'' @ h @ ''/projects/'' @ rest" by blast
    have "relativePath c = ''hosts/'' @ h @ ''/projects/'' @ rest"
      using h(4) r by (simp add: downloadChange_def)
    then show "\<not> startsWith (relativePath c) (''hosts/'' @ hostname @ ''/'')"
      using other_host_prefix[of hostname h rest] ns h(1,2) by simp
  qed
  show ?thesis using one' two three by (intro conjI)
qed

theorem downloadChanges_plans_witness:
  "''H2'' \<in> set (listRemoteHosts exampleLister) \<and> ''H2'' \<noteq> ''H1''
   \<and> (''hosts/H2/projects/p2/s2.jsonl'',
       \<lparr>path = ''s2.jsonl'', f_size = 700, lastModified = 9000, isDirectory = False\<rparr>)
      \<in> set (scanHostRemoteFiles exampleLister ''H2'')
   \<and> downloadChange ''hosts/H2/projects/p2/s2.jsonl''
        \<lparr>path = ''s2.jsonl'', f_size = 700, lastModified = 9000, isDirectory = False\<rparr>
      \<in> set (downloadChanges exampleLister emptyDisk ''/cache/.claude'' Map.empty ''H1'')
   \<and> CHR ''/'' \<notin> set ''H1'' \<and> list_all (\<lambda>h. CHR ''/'' \<notin> set h) (listRemoteHosts exampleLister)
   \<and> \<not> (\<exists>c \<in> set (downloadChanges exampleLister emptyDisk ''/cache/.claude'' Map.empty ''H1'').
          startsWith (relativePath c) ''hosts/H1/'')"
proof -
  let ?rel = "''hosts/H2/projects/p2/s2.jsonl''"
  let ?info = "\<lparr>path = ''s2.jsonl'', f_size = 700, lastModified = 9000, isDirectory = False\<rparr>"
  note T = downloadChanges_plans[of "''H2''" exampleLister "''H1''" ?rel ?info emptyDisk
      "''/cache/.claude''" Map.empty]
  have h: "''H2'' \<in> set (listRemoteHosts exampleLister)" by (simp add: exampleLister_hosts)
  have n: "''H2'' \<noteq> ''H1''" by simp
  have f: "(?rel, ?info) \<in> set (scanHostRemoteFiles exampleLister ''H2'')"
    by (simp add: exampleLister_H2)
  have need: "\<not> existsSync emptyDisk (path_join ''/cache/.claude'' ?rel)"
    by (simp add: emptyDisk_def)
  have p: "downloadChange ?rel ?info
      \<in> set (downloadChanges exampleLister emptyDisk ''/cache/.claude'' Map.empty ''H1'')"
    using T h n f need by blast
  have s1: "CHR ''/'' \<notin> set ''H1''" by simp
  have s2: "list_all (\<lambda>h. CHR ''/'' \<notin> set h) (listRemoteHosts exampleLister)"
    by (simp add: exampleLister_hosts)
  then have s2': "\<forall>h \<in> set (listRemoteHosts exampleLister). CHR ''/'' \<notin> set h"
    by (simp add: list_all_iff)
  have own: "\<not> (\<exists>c \<in> set (downloadChanges exampleLister emptyDisk ''/cache/.claude'' Map.empty ''H1'').
          startsWith (relativePath c) ''hosts/H1/'')"
    using T s1 s2' by auto
  show ?thesis using h n f p s1 s2 own by (intro conjI)
qed

text \<open>
  C3. After both contents are parsed, the map holds for each session identifier the
  record with the greatest timestamp among the records of the local content followed by
  those of the remote content, and among records of that timestamp the first in scan
  order; blank lines, lines that do not parse and lines without a session identifier
  leave the map unchanged. The result is the lines of the surviving records, one per
  session, sorted by descending timestamp, joined by line feeds and followed by one.
  Merging the result with the same remote content again returns it unchanged, and so does
  running the loop over the hosts again on its own result, after which
  \<open>syncHistoryFile\<close> writes nothing; it writes only a merged content that differs from the
  local one. Merging \<open>a\<close> with \<open>b\<close> and then the result with \<open>c\<close> gives the same map as
  parsing \<open>a\<close>, \<open>b\<close> and \<open>c\<close> in one pass.
\<close>

theorem mergeHistoryFiles_latest_wins:
  "(case map_of (mergedEntries parse localContent remoteContent) sid of
      None \<Rightarrow> sid \<notin> fst ` set (validEntries parse localContent @ validEntries parse remoteContent)
    | Some w \<Rightarrow>
        \<exists>pre post.
          filter (\<lambda>p. fst p = sid)
            (validEntries parse localContent @ validEntries parse remoteContent)
            = pre @ (sid, w) # post
          \<and> (\<forall>p \<in> set pre. h_timestamp (snd p) < h_timestamp w)
          \<and> (\<forall>p \<in> set post. h_timestamp (snd p) \<le> h_timestamp w))
   \<and> (isBlank l \<or> parse l = None
        \<or> (\<exists>e. parse l = Some e \<and> (sessionId e = None \<or> sessionId e = Some []))
      \<longrightarrow> parseLines parse (l # ls) entries = parseLines parse ls entries)
   \<and> mergeHistoryFiles parse localContent remoteContent =
       str_join CHR 0x0A
         (map line (sort_key (\<lambda>e. - h_timestamp e)
            (map snd (mergedEntries parse localContent remoteContent)))) @ [CHR 0x0A]
   \<and> sorted_wrt (\<lambda>x y. h_timestamp x \<ge> h_timestamp y)
        (sort_key (\<lambda>e. - h_timestamp e) (map snd (mergedEntries parse localContent remoteContent)))
   \<and> distinct (map fst (mergedEntries parse localContent remoteContent))
   \<and> mergeHistoryFiles parse (mergeHistoryFiles parse localContent remoteContent) remoteContent
       = mergeHistoryFiles parse localContent remoteContent
   \<and> mergeHosts parse hostname hosts (mergeHosts parse hostname hosts localContent)
       = mergeHosts parse hostname hosts localContent
   \<and> syncHistoryFile parse hostname (mergeHosts parse hostname hosts localContent) uploaded hosts
       = None
   \<and> (syncHistoryFile parse hostname localContent uploaded hosts = Some m
      \<longrightarrow> m \<noteq> localContent \<and> m = mergeHosts parse hostname hosts localContent)
   \<and> map_of (mergedEntries parse (mergeHistoryFiles parse a b) c)
       = map_of (parseLines parse (str_split CHR 0x0A c) (mergedEntries parse a b))"
proof -
  have c1: "(case map_of (mergedEntries parse localContent remoteContent) sid of
      None \<Rightarrow> sid \<notin> fst ` set (validEntries parse localContent @ validEntries parse remoteContent)
    | Some w \<Rightarrow>
        \<exists>pre post.
          filter (\<lambda>p. fst p = sid)
            (validEntries parse localContent @ validEntries parse remoteContent)
            = pre @ (sid, w) # post
          \<and> (\<forall>p \<in> set pre. h_timestamp (snd p) < h_timestamp w)
          \<and> (\<forall>p \<in> set post. h_timestamp (snd p) \<le> h_timestamp w))"
    unfolding mergedEntries_fold by (rule winner_fold_put)
  have c2: "isBlank l \<or> parse l = None
        \<or> (\<exists>e. parse l = Some e \<and> (sessionId e = None \<or> sessionId e = Some []))
      \<longrightarrow> parseLines parse (l # ls) entries = parseLines parse ls entries"
  proof
    assume "isBlank l \<or> parse l = None
        \<or> (\<exists>e. parse l = Some e \<and> (sessionId e = None \<or> sessionId e = Some []))"
    then have "entryOf parse l = None" by (auto simp add: entryOf_def)
    then show "parseLines parse (l # ls) entries = parseLines parse ls entries"
      unfolding parseLines_step by simp
  qed
  have c3: "mergeHistoryFiles parse localContent remoteContent =
       str_join CHR 0x0A
         (map line (sort_key (\<lambda>e. - h_timestamp e)
            (map snd (mergedEntries parse localContent remoteContent)))) @ [CHR 0x0A]"
    by (simp add: mergeHistoryFiles_def)
  have c8: "syncHistoryFile parse hostname (mergeHosts parse hostname hosts localContent)
      uploaded hosts = None"
    unfolding syncHistoryFile_def Let_def mergeHosts_fixed by simp
  have c9: "syncHistoryFile parse hostname localContent uploaded hosts = Some m
      \<longrightarrow> m \<noteq> localContent \<and> m = mergeHosts parse hostname hosts localContent"
    unfolding syncHistoryFile_def Let_def by (auto split: if_splits)
  show ?thesis
    by (intro conjI c1 c2 c3 sorted_desc mergedEntries_distinct merge_idempotent
        mergeHosts_fixed c8 c9 merge_two_stage)
qed

theorem mergeHistoryFiles_latest_wins_witness:
  "sampleParse ''zz'' = None
   \<and> map_of (mergedEntries sampleParse ''a 1\<newline>zz\<newline>? 9\<newline>b 2'' ''a 3\<newline>'') ''a''
       = Some \<lparr>line = ''a 3'', h_timestamp = 3\<rparr>
   \<and> parseLines sampleParse [''zz'', ''b 2''] [] = parseLines sampleParse [''b 2''] []
   \<and> mergeHistoryFiles sampleParse ''a 1\<newline>zz\<newline>? 9\<newline>b 2'' ''a 3\<newline>'' = ''a 3\<newline>b 2\<newline>''
   \<and> mergeHistoryFiles sampleParse ''a 3\<newline>b 2\<newline>'' ''a 3\<newline>'' = ''a 3\<newline>b 2\<newline>''
   \<and> syncHistoryFile sampleParse ''H1'' ''a 1\<newline>zz\<newline>? 9\<newline>b 2'' (Inr ())
        [(''H1'', Inr ''a 1''), (''H2'', Inr ''a 3\<newline>'')] = Some ''a 3\<newline>b 2\<newline>''
   \<and> syncHistoryFile sampleParse ''H1'' ''a 3\<newline>b 2\<newline>'' (Inr ())
        [(''H1'', Inr ''a 1''), (''H2'', Inr ''a 3\<newline>'')] = None"
proof -
  let ?L = "''a 1\<newline>zz\<newline>? 9\<newline>b 2''"
  let ?R = "''a 3\<newline>''"
  let ?hosts = "[(''H1'', Inr ''a 1''), (''H2'', Inr ?R)] :: (string \<times> (error + string)) list"
  note T = mergeHistoryFiles_latest_wins[where parse=sampleParse and localContent="?L"
      and remoteContent="?R" and sid="''a''" and l="''zz''" and ls="[''b 2'']" and entries="[]"
      and hostname="''H1''" and hosts="?hosts" and uploaded="Inr ()"
      and m="''a 3\<newline>b 2\<newline>''" and a="?L" and b="?R" and c="[]"]
  have z: "sampleParse ''zz'' = None" by (simp add: sampleParse_def)
  have a: "map_of (mergedEntries sampleParse ?L ?R) ''a'' = Some \<lparr>line = ''a 3'', h_timestamp = 3\<rparr>"
    unfolding sample_entries by simp
  have p: "parseLines sampleParse [''zz'', ''b 2''] [] = parseLines sampleParse [''b 2''] []"
    using T z by blast
  have mh: "mergeHosts sampleParse ''H1'' ?hosts ?L = ''a 3\<newline>b 2\<newline>''"
    by (simp add: sample_merge)
  have idem: "mergeHistoryFiles sampleParse ''a 3\<newline>b 2\<newline>'' ?R = ''a 3\<newline>b 2\<newline>''"
    using T unfolding sample_merge by blast
  have s1: "syncHistoryFile sampleParse ''H1'' ?L (Inr ()) ?hosts = Some ''a 3\<newline>b 2\<newline>''"
    unfolding syncHistoryFile_def mh by simp
  have s2: "syncHistoryFile sampleParse ''H1'' ''a 3\<newline>b 2\<newline>'' (Inr ()) ?hosts = None"
    using T unfolding mh by blast
  show ?thesis using z a p sample_merge idem s1 s2 by (intro conjI)
qed




text \<open>
  C5. When the server answers 503 to the first \<open>k\<close> attempts of a request and retries
  remain (at most \<open>retries\<close>, 3 by default), the client sends the request again after each
  of them; the request returns what the attempt after them gets, which is the last 503
  itself once the retries are used up. Each rate-limited attempt doubles the minimum
  interval up to the ceiling of 10000 ms and is followed by a backoff of 3000 ms doubled
  per attempt and capped at 30000 ms, and the raised interval is strictly larger than
  before whenever it was positive and below the ceiling. On the clock: the first attempt
  is sent once the minimum interval has passed since the previous request, and the last
  attempt later than that by the sum, over the rate-limited attempts, of the backoff or
  the raised interval, whichever is longer, so that the request returns no earlier than
  the sum of the backoffs after it was called. The
  raised interval applies to all subsequent requests: the next request is sent no earlier
  than the raised interval after this one, and after any further calls of the client the
  interval is still at least the raised one and paces the request that follows.
\<close>

theorem request_rate_limit:
  assumes "\<forall>i<k. srv (sent st + i) method remotePath = Inr 503"
    and "k \<le> (case retries of None \<Rightarrow> 3 | Some r \<Rightarrow> r)"
    and "k = (case retries of None \<Rightarrow> 3 | Some r \<Rightarrow> r)
         \<or> srv (sent st + k) method remotePath \<noteq> Inr 503"
  shows "fst (request srv method remotePath retries st) = srv (sent st + k) method remotePath
    \<and> minInterval (snd (request srv method remotePath retries st)) =
        (if k = 0 then minInterval st else min (minInterval st * 2 ^ k) 10000)
    \<and> trace (snd (request srv method remotePath retries st)) =
        trace st @ retryEvents method remotePath 0 k @ [Sent method remotePath]
    \<and> (0 < k \<and> 0 < minInterval st \<and> minInterval st < 10000 \<longrightarrow>
        minInterval st < minInterval (snd (request srv method remotePath retries st)))
    \<and> lastRequestTime (snd (request srv method remotePath retries st))
        + minInterval (snd (request srv method remotePath retries st))
        \<le> now (throttle (snd (request srv method remotePath retries st)))
    \<and> lastRequestTime (snd (request srv method remotePath retries st)) =
        max (now st) (lastRequestTime st + minInterval st)
        + (\<Sum>i<k. max (min (3000 * 2 ^ i) 30000) (min (minInterval st * 2 ^ Suc i) 10000))
    \<and> now (snd (request srv method remotePath retries st))
        = lastRequestTime (snd (request srv method remotePath retries st))
    \<and> now st + (\<Sum>i<k. min (3000 * 2 ^ i) 30000)
        \<le> now (snd (request srv method remotePath retries st))
    \<and> (\<forall>srv' m' p' r'.
          lastRequestTime (snd (request srv method remotePath retries st))
            + minInterval (snd (request srv method remotePath retries st))
          \<le> lastRequestTime
               (snd (request srv' m' p' r' (snd (request srv method remotePath retries st)))))
    \<and> (0 \<le> minInterval st \<and> minInterval st \<le> 10000 \<longrightarrow>
        (\<forall>srv' calls m' p' r'.
          minInterval (snd (request srv method remotePath retries st))
            \<le> minInterval (session srv' calls (snd (request srv method remotePath retries st)))
          \<and> lastRequestTime
                (session srv' calls (snd (request srv method remotePath retries st)))
              + minInterval (snd (request srv method remotePath retries st))
            \<le> lastRequestTime
                 (snd (request srv' m' p' r'
                   (session srv' calls (snd (request srv method remotePath retries st)))))))"
proof -
  let ?mx = "case retries of None \<Rightarrow> 3 | Some r \<Rightarrow> r"
  let ?s = "snd (request srv method remotePath retries st)"
  have a: "0 + k \<le> ?mx" using assms(2) by simp
  have b: "0 + k = ?mx \<or> srv (sent st + k) method remotePath \<noteq> Inr 503"
    using assms(3) by simp
  note L = request_loop_503s[of k srv st "method" "remotePath" 0 "?mx", OF assms(1) a b]
  note C = request_loop_clock[of k srv st "method" "remotePath" 0 "?mx", OF assms(1) a b]
  have grow: "0 < k \<Longrightarrow> 0 < minInterval st \<Longrightarrow> minInterval st < 10000
      \<Longrightarrow> minInterval st < min (minInterval st * 2 ^ k) 10000"
  proof -
    assume k: "0 < k" and m: "0 < minInterval st" "minInterval st < 10000"
    have "(2::int) ^ 1 \<le> 2 ^ k" using k by (intro power_increasing) simp_all
    then have "minInterval st * 2 \<le> minInterval st * 2 ^ k"
      using m by (simp add: mult_left_mono)
    then show ?thesis using m by simp
  qed
  have c1: "fst (request srv method remotePath retries st) = srv (sent st + k) method remotePath"
    unfolding request_def using L by simp
  have c2: "minInterval ?s = (if k = 0 then minInterval st else min (minInterval st * 2 ^ k) 10000)"
    unfolding request_def using L by simp
  have c3: "trace ?s = trace st @ retryEvents method remotePath 0 k @ [Sent method remotePath]"
    unfolding request_def using L by simp
  have c4: "0 < k \<and> 0 < minInterval st \<and> minInterval st < 10000 \<longrightarrow>
        minInterval st < minInterval ?s"
    unfolding c2 using grow by auto
  have c5: "lastRequestTime ?s + minInterval ?s \<le> now (throttle ?s)"
    by (rule throttle_pace)
  have c6: "lastRequestTime ?s = max (now st) (lastRequestTime st + minInterval st)
        + (\<Sum>i<k. max (min (3000 * 2 ^ i) 30000) (min (minInterval st * 2 ^ Suc i) 10000))"
    unfolding request_def using C by simp
  have c7: "now ?s = lastRequestTime ?s"
    unfolding request_def using C by simp
  have "(\<Sum>i<k. min (3000 * 2 ^ i) (30000::int))
      \<le> (\<Sum>i<k. max (min (3000 * 2 ^ i) 30000) (min (minInterval st * 2 ^ Suc i) 10000))"
    by (rule sum_mono) simp
  then have c8: "now st + (\<Sum>i<k. min (3000 * 2 ^ i) 30000) \<le> now ?s"
    unfolding c7 c6 by linarith
  have c9: "\<forall>srv' m' p' r'.
      lastRequestTime ?s + minInterval ?s \<le> lastRequestTime (snd (request srv' m' p' r' ?s))"
    using request_paced by blast
  have c10: "0 \<le> minInterval st \<and> minInterval st \<le> 10000 \<longrightarrow>
        (\<forall>srv' calls m' p' r'.
          minInterval ?s \<le> minInterval (session srv' calls ?s)
          \<and> lastRequestTime (session srv' calls ?s) + minInterval ?s
            \<le> lastRequestTime (snd (request srv' m' p' r' (session srv' calls ?s))))"
  proof (intro impI allI)
    fix srv' calls m' p' r'
    assume h: "0 \<le> minInterval st \<and> minInterval st \<le> 10000"
    note R = request_interval[of st srv "method" remotePath retries]
    have b1: "0 \<le> minInterval ?s" "minInterval ?s \<le> 10000" using R h by linarith+
    note S = session_interval[OF b1, of srv' calls]
    note P = request_paced[of "session srv' calls ?s" srv' m' p' r']
    show "minInterval ?s \<le> minInterval (session srv' calls ?s)
          \<and> lastRequestTime (session srv' calls ?s) + minInterval ?s
            \<le> lastRequestTime (snd (request srv' m' p' r' (session srv' calls ?s)))"
      using S P by linarith
  qed
  show ?thesis by (intro conjI c1 c2 c3 c4 c5 c6 c7 c8 c9 c10)
qed

theorem request_rate_limit_witness:
  "fst (request (\<lambda>n m p. if n < 2 then Inr 503 else Inr 201) ''PUT'' ''/a.jsonl'' None
        (newClient 0)) = Inr 201
   \<and> minInterval (snd (request (\<lambda>n m p. if n < 2 then Inr 503 else Inr 201) ''PUT''
        ''/a.jsonl'' None (newClient 0))) = 6000
   \<and> trace (snd (request (\<lambda>n m p. if n < 2 then Inr 503 else Inr 201) ''PUT''
        ''/a.jsonl'' None (newClient 0))) =
      [Sent ''PUT'' ''/a.jsonl'', Backoff 3000, Sent ''PUT'' ''/a.jsonl'', Backoff 6000,
       Sent ''PUT'' ''/a.jsonl'']
   \<and> now (snd (request (\<lambda>n m p. if n < 2 then Inr 503 else Inr 201) ''PUT''
        ''/a.jsonl'' None (newClient 0))) = 10500
   \<and> lastRequestTime (snd (request (\<lambda>n m p. if n < 2 then Inr 503 else Inr 201) ''PUT''
        ''/a.jsonl'' None (newClient 0))) = 10500
   \<and> 16500 \<le> lastRequestTime (snd (request (\<lambda>n m p. Inr 200) ''GET'' ''/b.jsonl'' None
        (snd (request (\<lambda>n m p. if n < 2 then Inr 503 else Inr 201) ''PUT''
          ''/a.jsonl'' None (newClient 0)))))"
proof -
  let ?srv = "\<lambda>(n::nat) (m::string) (p::string). if n < 2 then Inr 503 else (Inr 201 :: response)"
  let ?s = "snd (request ?srv ''PUT'' ''/a.jsonl'' None (newClient 0))"
  have a: "\<forall>i<2. ?srv (sent (newClient 0) + i) ''PUT'' ''/a.jsonl'' = Inr 503"
    by (simp add: newClient_def)
  have b: "(2::nat) \<le> (case None :: nat option of None \<Rightarrow> 3 | Some r \<Rightarrow> r)" by simp
  have c: "2 = (case None :: nat option of None \<Rightarrow> 3 | Some r \<Rightarrow> r)
      \<or> ?srv (sent (newClient 0) + 2) ''PUT'' ''/a.jsonl'' \<noteq> Inr 503" by simp
  note T = request_rate_limit[of 2 ?srv "newClient 0" "''PUT''" "''/a.jsonl''" None, OF a b c]
  have w1: "fst (request ?srv ''PUT'' ''/a.jsonl'' None (newClient 0)) = Inr 201"
    using T[THEN conjunct1] by (simp add: newClient_def)
  have w2: "minInterval ?s = 6000"
    using T[THEN conjunct2, THEN conjunct1] by (simp add: newClient_def)
  have w3: "trace ?s = [Sent ''PUT'' ''/a.jsonl'', Backoff 3000, Sent ''PUT'' ''/a.jsonl'',
      Backoff 6000, Sent ''PUT'' ''/a.jsonl'']"
    using T[THEN conjunct2, THEN conjunct2, THEN conjunct1]
    by (simp add: newClient_def retryEvents_def upt_rec)
  have sm: "(\<Sum>i<(2::nat). max (min (3000 * 2 ^ i) 30000)
        (min (minInterval (newClient 0) * 2 ^ Suc i) (10000::int))) = 9000"
    by (simp add: newClient_def numeral_2_eq_2)
  have w5: "lastRequestTime ?s = 10500"
    using T[THEN conjunct2, THEN conjunct2, THEN conjunct2, THEN conjunct2, THEN conjunct2,
      THEN conjunct1]
    unfolding sm by (simp add: newClient_def)
  have w4: "now ?s = 10500"
    using T[THEN conjunct2, THEN conjunct2, THEN conjunct2, THEN conjunct2, THEN conjunct2,
      THEN conjunct2, THEN conjunct1] w5
    by simp
  note N = T[THEN conjunct2, THEN conjunct2, THEN conjunct2, THEN conjunct2, THEN conjunct2,
      THEN conjunct2, THEN conjunct2, THEN conjunct2, THEN conjunct1, rule_format,
      of "\<lambda>n m p. Inr 200" "''GET''" "''/b.jsonl''" None]
  have w6: "16500 \<le> lastRequestTime (snd (request (\<lambda>n m p. Inr 200) ''GET'' ''/b.jsonl'' None ?s))"
    using N unfolding w5 w2 by simp
  show ?thesis by (intro conjI w1 w2 w3 w4 w5 w6)
qed

text \<open>
  C6. Whatever the server answers and whatever is on the local disk, in every sequence
  of the steps in which the sync service sends requests that change the remote store
  (the first step of \<open>performSync\<close>, its upload loop over the planned session files, the
  uploads of the machine descriptor, of the history document and of the session names,
  and \<open>deleteRemote\<close>), every document is written (\<open>PUT\<close>) to a path under this machine's
  own \<open>/hosts/{hostname}\<close> prefix or to \<open>/session-names.json\<close>, which is not under that
  prefix, and every deletion is of a path under the own prefix. The only other requests
  of these steps create directories (\<open>MKCOL\<close>); for a host name that is not empty and has
  no slash, the directories are the own prefix, directories under it, and its parent
  \<open>/hosts\<close>.
\<close>

theorem writes_stay_in_own_namespace:
  "(\<exists>es. trace (fold (runWrite srv hostname) steps st) = trace st @ es
      \<and> (\<forall>p. Sent ''PUT'' p \<in> set es
            \<longrightarrow> underOwnPrefix hostname p \<or> p = ''/session-names.json'')
      \<and> (\<forall>p. Sent ''DELETE'' p \<in> set es \<longrightarrow> underOwnPrefix hostname p)
      \<and> (\<forall>m p. Sent m p \<in> set es \<longrightarrow> m = ''PUT'' \<or> m = ''DELETE'' \<or> m = ''MKCOL'')
      \<and> (hostname \<noteq> [] \<and> CHR ''/'' \<notin> set hostname
          \<longrightarrow> (\<forall>p. Sent ''MKCOL'' p \<in> set es
                \<longrightarrow> underOwnPrefix hostname p \<or> p = ''/hosts'')))
   \<and> \<not> underOwnPrefix hostname ''/session-names.json''"
proof -
  let ?own = "{d. d = ''/hosts'' \<or> underOwnPrefix hostname d}"
  have "\<forall>rest. set (ancestorPrefixes (''/hosts/'' @ hostname @ CHR ''/'' # rest))
      \<subseteq> (UNIV :: string set)" by simp
  from runWrites_own[of hostname UNIV srv steps st, OF this] obtain es where
    t: "trace (fold (runWrite srv hostname) steps st) = trace st @ es"
    and o: "ownWrites hostname UNIV es" by blast
  note E = ownWrites_events[OF o]
  have mk: "hostname \<noteq> [] \<and> CHR ''/'' \<notin> set hostname
      \<longrightarrow> (\<forall>p. Sent ''MKCOL'' p \<in> set es \<longrightarrow> underOwnPrefix hostname p \<or> p = ''/hosts'')"
  proof
    assume h: "hostname \<noteq> [] \<and> CHR ''/'' \<notin> set hostname"
    have "\<forall>rest. set (ancestorPrefixes (''/hosts/'' @ hostname @ CHR ''/'' # rest))
        \<subseteq> ?own"
      using own_ancestors[of hostname] h by blast
    from runWrites_own[of hostname ?own srv steps st, OF this] obtain es' where
      t': "trace (fold (runWrite srv hostname) steps st) = trace st @ es'"
      and o': "ownWrites hostname ?own es'" by blast
    have "es' = es" using t t' by simp
    then have "\<forall>p. Sent ''MKCOL'' p \<in> set es \<longrightarrow> p \<in> ?own"
      using ownWrites_events[OF o'] by blast
    then show "\<forall>p. Sent ''MKCOL'' p \<in> set es \<longrightarrow> underOwnPrefix hostname p \<or> p = ''/hosts''"
      by blast
  qed
  have n: "\<not> underOwnPrefix hostname ''/session-names.json''"
    by (simp add: underOwnPrefix_def hostPrefix_def startsWith_def)
  have "\<exists>es. trace (fold (runWrite srv hostname) steps st) = trace st @ es
      \<and> (\<forall>p. Sent ''PUT'' p \<in> set es
            \<longrightarrow> underOwnPrefix hostname p \<or> p = ''/session-names.json'')
      \<and> (\<forall>p. Sent ''DELETE'' p \<in> set es \<longrightarrow> underOwnPrefix hostname p)
      \<and> (\<forall>m p. Sent m p \<in> set es \<longrightarrow> m = ''PUT'' \<or> m = ''DELETE'' \<or> m = ''MKCOL'')
      \<and> (hostname \<noteq> [] \<and> CHR ''/'' \<notin> set hostname
          \<longrightarrow> (\<forall>p. Sent ''MKCOL'' p \<in> set es
                \<longrightarrow> underOwnPrefix hostname p \<or> p = ''/hosts''))"
    using t E mk by blast
  then show ?thesis using n by (rule conjI)
qed

theorem writes_stay_in_own_namespace_witness:
  "trace (fold (runWrite (\<lambda>n m p. Inr 201) ''H1'') [Prepare, MachineDescriptor] (newClient 0))
     = [Sent ''MKCOL'' ''/hosts'', Sent ''MKCOL'' ''/hosts/H1'',
        Sent ''MKCOL'' ''/hosts/H1/projects'', Sent ''PUT'' ''/hosts/H1/machine.json'']
   \<and> underOwnPrefix ''H1'' ''/hosts/H1/machine.json''
   \<and> underOwnPrefix ''H1'' ''/hosts/H1/projects''"
proof -
  let ?srv = "\<lambda>(n::nat) (m::string) (p::string). Inr 201 :: response"
  let ?st1 = "snd (mkdirp ?srv ''/hosts/H1/projects'' (newClient 0))"
  have a: "mkcolAccepted ?srv" by (simp add: mkcolAccepted_def)
  have p: "filter (\<lambda>p. p \<noteq> []) (str_split CHR ''/'' ''/hosts/H1/projects'')
      = [''hosts'', ''H1'', ''projects'']" by simp
  have t1: "trace ?st1 = map (Sent ''MKCOL'') [''/hosts'', ''/hosts/H1'', ''/hosts/H1/projects'']"
    unfolding mkdirp_def p
    using mkdirp_loop_accepted[OF a, of "[]" "[''hosts'', ''H1'', ''projects'']" "newClient 0"]
    by (simp add: newClient_def)
  have "?srv (sent ?st1) ''PUT'' ''/hosts/H1/machine.json'' \<noteq> Inr 503" by simp
  note R = request_once[of ?srv ?st1 "''PUT''" "''/hosts/H1/machine.json''", OF this]
  have "trace (snd (upload ?srv ''/hosts/H1/machine.json'' ?st1))
      = trace (snd (request ?srv ''PUT'' ''/hosts/H1/machine.json'' None ?st1))"
    by (simp add: upload_def split: prod.split sum.split)
  also have "\<dots> = trace ?st1 @ [Sent ''PUT'' ''/hosts/H1/machine.json'']"
    using R by (rule conjunct1[OF conjunct2])
  finally have "trace (snd (upload ?srv ''/hosts/H1/machine.json'' ?st1))
      = trace ?st1 @ [Sent ''PUT'' ''/hosts/H1/machine.json'']" .
  then have t: "trace (fold (runWrite ?srv ''H1'') [Prepare, MachineDescriptor] (newClient 0))
     = [Sent ''MKCOL'' ''/hosts'', Sent ''MKCOL'' ''/hosts/H1'',
        Sent ''MKCOL'' ''/hosts/H1/projects'', Sent ''PUT'' ''/hosts/H1/machine.json'']"
    unfolding t1 by (simp add: hostPrefix_def)
  note T = writes_stay_in_own_namespace[of ?srv "''H1''" "[Prepare, MachineDescriptor]"
      "newClient 0", THEN conjunct1]
  then obtain es where
    e: "trace (fold (runWrite ?srv ''H1'') [Prepare, MachineDescriptor] (newClient 0))
          = trace (newClient 0) @ es"
    and pu: "\<forall>p. Sent ''PUT'' p \<in> set es
            \<longrightarrow> underOwnPrefix ''H1'' p \<or> p = ''/session-names.json''"
    and mk: "''H1'' \<noteq> [] \<and> CHR ''/'' \<notin> set ''H1''
          \<longrightarrow> (\<forall>p. Sent ''MKCOL'' p \<in> set es \<longrightarrow> underOwnPrefix ''H1'' p \<or> p = ''/hosts'')"
    by blast
  have es: "es = [Sent ''MKCOL'' ''/hosts'', Sent ''MKCOL'' ''/hosts/H1'',
        Sent ''MKCOL'' ''/hosts/H1/projects'', Sent ''PUT'' ''/hosts/H1/machine.json'']"
    using e unfolding t by (simp add: newClient_def)
  have m1: "Sent ''PUT'' ''/hosts/H1/machine.json'' \<in> set es" unfolding es by simp
  have m2: "Sent ''MKCOL'' ''/hosts/H1/projects'' \<in> set es" unfolding es by simp
  have "underOwnPrefix ''H1'' ''/hosts/H1/machine.json''
      \<or> ''/hosts/H1/machine.json'' = ''/session-names.json''"
    using pu m1 by blast
  then have u1: "underOwnPrefix ''H1'' ''/hosts/H1/machine.json''" by simp
  have h: "''H1'' \<noteq> [] \<and> CHR ''/'' \<notin> set ''H1''" by simp
  have "underOwnPrefix ''H1'' ''/hosts/H1/projects'' \<or> ''/hosts/H1/projects'' = ''/hosts''"
    using mk h m2 by blast
  then have u2: "underOwnPrefix ''H1'' ''/hosts/H1/projects''" by simp
  show ?thesis using t u1 u2 by (intro conjI)
qed

text \<open>
  C7, as stated, fails in its last part: deleting a session whose only copy is the
  cached mirror of a file of host \<open>H2\<close> sends a \<open>DELETE\<close> all the same, for the path with
  the same project directory and file name under this machine's own prefix.
\<close>

theorem deleteRemote_mirror_sends_delete:
  "map_option trace
     (theClient (deleteRemote (\<lambda>n m p. Inr 404) ''H1'' ''/c/.claude''
        ''/c/.claude/hosts/H2/projects/p2/s2.jsonl''
        \<lparr>theClient = Some (newClient 0), theManifest = Map.empty, disk = {}\<rparr>))
   = Some [Sent ''DELETE'' ''/hosts/H1/projects/p2/s2.jsonl'']"
proof -
  have "(\<lambda>(n::nat) (m::string) (p::string). Inr 404 :: response) (sent (newClient 0)) ''DELETE''
      ''/hosts/H1/projects/p2/s2.jsonl'' = Inr 404" by simp
  from delete_404[OF this]
  have "trace (snd (delete (\<lambda>n m p. Inr 404) ''/hosts/H1/projects/p2/s2.jsonl'' (newClient 0)))
      = [Sent ''DELETE'' ''/hosts/H1/projects/p2/s2.jsonl'']"
    by (simp add: newClient_def)
  then show ?thesis
    unfolding deleteRemote_def sample_deletePath Let_def by simp
qed

text \<open>
  C7, amended. With a client at hand, \<open>deleteRemote\<close> sends \<open>DELETE\<close> requests for one
  path only, and at least one: the path under this machine's own host prefix with the
  project directory and file name of the deleted file, which for a local session file is
  the path the file is uploaded to. Whatever the answer, the manifest entry of that path
  and the cache copy at that path are gone afterwards. A 404 answer makes \<open>delete\<close>
  return normally. No \<open>DELETE\<close> is ever sent for a path under another host's prefix.
\<close>

theorem deleteRemote_own_path:
  assumes "theClient s = Some st"
  shows "(\<exists>st' es. theClient (deleteRemote srv hostname cacheDir filePath s) = Some st'
        \<and> trace st' = trace st @ Sent ''DELETE'' (''/'' @ deletePath hostname filePath) # es
        \<and> set es \<subseteq> insert (Sent ''DELETE'' (''/'' @ deletePath hostname filePath)) (range Backoff))
    \<and> startsWith (''/'' @ deletePath hostname filePath) (hostPrefix hostname @ ''/'')
    \<and> theManifest (deleteRemote srv hostname cacheDir filePath s)
        = removeEntry (theManifest s) (deletePath hostname filePath)
    \<and> getEntry (theManifest (deleteRemote srv hostname cacheDir filePath s))
        (deletePath hostname filePath) = None
    \<and> disk (deleteRemote srv hostname cacheDir filePath s)
        = disk s - {path_join cacheDir (deletePath hostname filePath)}
    \<and> (fst (request srv ''DELETE'' p None st) = Inr 404 \<longrightarrow> fst (delete srv p st) = Inr ())
    \<and> (CHR ''/'' \<notin> set projectDir \<and> CHR 0x5C \<notin> set projectDir
        \<and> CHR ''/'' \<notin> set fileName \<and> CHR 0x5C \<notin> set fileName
      \<longrightarrow> deletePath hostname (path_join (path_join projectsDir projectDir) fileName)
          = ''hosts/'' @ hostname @ ''/projects/'' @ projectDir @ ''/'' @ fileName)"
proof -
  let ?rel = "deletePath hostname filePath"
  let ?s' = "deleteRemote srv hostname cacheDir filePath s"
  have c: "theClient ?s' = Some (snd (delete srv (''/'' @ ?rel) st))"
    using assms by (simp add: deleteRemote_def Let_def)
  from delete_sends[of srv "''/'' @ ?rel" st] obtain es where
    es: "trace (snd (delete srv (''/'' @ ?rel) st)) = trace st @ Sent ''DELETE'' (''/'' @ ?rel) # es"
      "set es \<subseteq> insert (Sent ''DELETE'' (''/'' @ ?rel)) (range Backoff)" by blast
  have c1: "\<exists>st' es. theClient ?s' = Some st'
        \<and> trace st' = trace st @ Sent ''DELETE'' (''/'' @ ?rel) # es
        \<and> set es \<subseteq> insert (Sent ''DELETE'' (''/'' @ ?rel)) (range Backoff)"
    using c es by blast
  have c2: "startsWith (''/'' @ ?rel) (hostPrefix hostname @ ''/'')"
    by (simp add: deletePath_def Let_def startsWith_def hostPrefix_def)
  have c3: "theManifest ?s' = removeEntry (theManifest s) ?rel"
    using assms by (simp add: deleteRemote_def Let_def)
  have c4: "getEntry (theManifest ?s') ?rel = None"
    unfolding c3 by (simp add: getEntry_def removeEntry_def)
  have c5: "disk ?s' = disk s - {path_join cacheDir ?rel}"
    using assms by (auto simp add: deleteRemote_def Let_def)
  have c6: "fst (request srv ''DELETE'' p None st) = Inr 404 \<longrightarrow> fst (delete srv p st) = Inr ()"
    unfolding delete_result by simp
  have c7: "CHR ''/'' \<notin> set projectDir \<and> CHR 0x5C \<notin> set projectDir
        \<and> CHR ''/'' \<notin> set fileName \<and> CHR 0x5C \<notin> set fileName
      \<longrightarrow> deletePath hostname (path_join (path_join projectsDir projectDir) fileName)
          = ''hosts/'' @ hostname @ ''/projects/'' @ projectDir @ ''/'' @ fileName"
    using deletePath_session by blast
  show ?thesis by (intro conjI c1 c2 c3 c4 c5 c6 c7)
qed

theorem deleteRemote_own_path_witness:
  "theClient \<lparr>theClient = Some (newClient 0),
      theManifest = [''hosts/H1/projects/p1/s1.jsonl''
        \<mapsto> \<lparr>m_size = 500, m_mtimeMs = 1000, syncedAt = 2000\<rparr>],
      disk = {''/u/.claude/projects/p1/s1.jsonl''}\<rparr> = Some (newClient 0)
   \<and> deletePath ''H1'' (path_join (path_join ''/u/.claude/projects'' ''p1'') ''s1.jsonl'')
       = ''hosts/H1/projects/p1/s1.jsonl''
   \<and> getEntry (theManifest (deleteRemote (\<lambda>n m p. Inr 404) ''H1'' ''/c/.claude''
        ''/u/.claude/projects/p1/s1.jsonl''
        \<lparr>theClient = Some (newClient 0),
         theManifest = [''hosts/H1/projects/p1/s1.jsonl''
           \<mapsto> \<lparr>m_size = 500, m_mtimeMs = 1000, syncedAt = 2000\<rparr>],
         disk = {''/u/.claude/projects/p1/s1.jsonl''}\<rparr>))
       ''hosts/H1/projects/p1/s1.jsonl'' = None"
proof -
  let ?s = "\<lparr>theClient = Some (newClient 0),
      theManifest = [''hosts/H1/projects/p1/s1.jsonl''
        \<mapsto> \<lparr>m_size = 500, m_mtimeMs = 1000, syncedAt = 2000\<rparr>],
      disk = {''/u/.claude/projects/p1/s1.jsonl''}\<rparr>"
  have a: "theClient ?s = Some (newClient 0)" by simp
  note T = deleteRemote_own_path[OF a, where srv="\<lambda>n m p. Inr 404" and hostname="''H1''"
      and cacheDir="''/c/.claude''" and filePath="''/u/.claude/projects/p1/s1.jsonl''"
      and projectDir="''p1''" and fileName="''s1.jsonl''" and projectsDir="''/u/.claude/projects''"]
  have ns: "CHR ''/'' \<notin> set ''p1'' \<and> CHR 0x5C \<notin> set ''p1''
        \<and> CHR ''/'' \<notin> set ''s1.jsonl'' \<and> CHR 0x5C \<notin> set ''s1.jsonl''" by simp
  note T7 = T[THEN conjunct2, THEN conjunct2, THEN conjunct2, THEN conjunct2, THEN conjunct2,
      THEN conjunct2]
  note T4 = T[THEN conjunct2, THEN conjunct2, THEN conjunct2, THEN conjunct1]
  have "deletePath ''H1'' (path_join (path_join ''/u/.claude/projects'' ''p1'') ''s1.jsonl'')
       = ''hosts/'' @ ''H1'' @ ''/projects/'' @ ''p1'' @ ''/'' @ ''s1.jsonl''"
    by (rule mp[OF T7 ns])
  then have d: "deletePath ''H1'' (path_join (path_join ''/u/.claude/projects'' ''p1'') ''s1.jsonl'')
       = ''hosts/H1/projects/p1/s1.jsonl''"
    by simp
  have d': "deletePath ''H1'' ''/u/.claude/projects/p1/s1.jsonl'' = ''hosts/H1/projects/p1/s1.jsonl''"
    using d by (simp add: path_join_def)
  have g: "getEntry (theManifest (deleteRemote (\<lambda>n m p. Inr 404) ''H1'' ''/c/.claude''
        ''/u/.claude/projects/p1/s1.jsonl'' ?s)) ''hosts/H1/projects/p1/s1.jsonl'' = None"
    using T4 unfolding d' .
  show ?thesis using a d g by (intro conjI)
qed






text \<open>
  C9, as stated, fails: when the server answers the first \<open>MKCOL\<close> of \<open>mkdirp('/a')\<close>
  with 503 and the retry with 201, the one directory \<open>/a\<close> is the target of two \<open>MKCOL\<close>
  requests within the session.
\<close>

theorem mkdirp_repeats_mkcol_after_503:
  "mkcolTargets (trace (session (\<lambda>n m p. if n = 0 then Inr 503 else Inr 201)
      [CallMkdirp ''/a''] (newClient 0))) = [''/a'', ''/a'']"
proof -
  let ?srv = "\<lambda>(n::nat) (m::string) (p::string). if n = 0 then Inr 503 else (Inr 201 :: response)"
  let ?st = "newClient 0"
  have a: "\<forall>i<(1::nat). ?srv (sent ?st + i) ''MKCOL'' ''/a'' = Inr 503"
    by (simp add: newClient_def)
  have b: "0 + (1::nat) \<le> 3" by simp
  have c: "0 + 1 = (3::nat) \<or> ?srv (sent ?st + 1) ''MKCOL'' ''/a'' \<noteq> Inr 503" by simp
  note R = request_loop_503s[of 1 ?srv ?st "''MKCOL''" "''/a''" 0 3, OF a b c]
  obtain r st' where q: "request ?srv ''MKCOL'' ''/a'' None ?st = (r, st')"
    by (cases "request ?srv ''MKCOL'' ''/a'' None ?st")
  have r: "r = Inr 201" using R q by (simp add: request_def)
  have t: "trace st' = [Sent ''MKCOL'' ''/a'', Backoff 3000, Sent ''MKCOL'' ''/a'']"
    using R q by (simp add: request_def newClient_def retryEvents_def)
  have "mkdir ?srv ''/a'' ?st = (Inr (), st')"
    unfolding mkdir_def q r by simp
  then have "trace (snd (mkdirp ?srv ''/a'' ?st)) = trace st'"
    by (simp add: mkdirp_def newClient_def)
  then show ?thesis
    by (simp add: session_def t mkcolTargets_def)
qed

text \<open>
  C9, amended. \<open>mkdir\<close> returns normally when the final status is 201 or 405 (or any
  status below 400) and throws on every other status from 400 on. \<open>mkdirp\<close> sends
  \<open>MKCOL\<close> requests only, and only to ancestor prefixes of its path that are not in the
  known-created cache; the cache only grows, and after a successful \<open>mkdirp\<close> it holds
  every ancestor prefix. When the server accepts every \<open>MKCOL\<close>, \<open>mkdirp\<close> sends exactly
  one \<open>MKCOL\<close> per uncached ancestor prefix, outermost first, and in a whole client session
  no directory is the target of two \<open>MKCOL\<close> requests.
\<close>

theorem mkdirp_creates_uncached_prefixes:
  "fst (mkdir srv p st) =
     (case fst (request srv ''MKCOL'' p None st) of
        Inl e \<Rightarrow> Inl e
      | Inr status \<Rightarrow>
          if status = 201 \<or> status = 405 \<or> status < 400 then Inr ()
          else Inl (MkdirFailed status))
   \<and> knownDirs st \<subseteq> knownDirs (snd (mkdirp srv p st))
   \<and> (fst (mkdirp srv p st) = Inr ()
        \<longrightarrow> set (ancestorPrefixes p) \<subseteq> knownDirs (snd (mkdirp srv p st)))
   \<and> (\<exists>es. trace (snd (mkdirp srv p st)) = trace st @ es
          \<and> mkcolOnly (set (ancestorPrefixes p) - knownDirs st) es)
   \<and> (mkcolAccepted srv \<longrightarrow>
        fst (mkdirp srv p st) = Inr ()
        \<and> trace (snd (mkdirp srv p st)) =
            trace st @ map (Sent ''MKCOL'')
              (filter (\<lambda>d. d \<notin> knownDirs st) (ancestorPrefixes p)))
   \<and> (mkcolAccepted srv \<longrightarrow>
        distinct (mkcolTargets (trace (session srv calls (newClient t)))))"
proof -
  let ?parts = "filter (\<lambda>p. p \<noteq> []) (str_split CHR ''/'' p)"
  note S = mkdirp_loop_shape[of st srv "[]" ?parts]
  have s1: "knownDirs st \<subseteq> knownDirs (snd (mkdirp srv p st))"
    using S unfolding mkdirp_def by (rule conjunct1)
  have s3: "fst (mkdirp srv p st) = Inr ()
        \<longrightarrow> set (ancestorPrefixes p) \<subseteq> knownDirs (snd (mkdirp srv p st))"
    using S unfolding mkdirp_def ancestorPrefixes_def by (elim conjE)
  have s4: "\<exists>es. trace (snd (mkdirp srv p st)) = trace st @ es
          \<and> mkcolOnly (set (ancestorPrefixes p) - knownDirs st) es"
    using S unfolding mkdirp_def ancestorPrefixes_def by (elim conjE)
  have s5: "mkcolAccepted srv \<longrightarrow>
        fst (mkdirp srv p st) = Inr ()
        \<and> trace (snd (mkdirp srv p st)) =
            trace st @ map (Sent ''MKCOL'')
              (filter (\<lambda>d. d \<notin> knownDirs st) (ancestorPrefixes p))"
    using mkdirp_loop_accepted[of srv "[]" ?parts st]
    unfolding mkdirp_def ancestorPrefixes_def by blast
  have "cacheCovers (newClient t)"
    by (simp add: cacheCovers_def newClient_def mkcolTargets_def)
  then have s6: "mkcolAccepted srv \<longrightarrow>
        distinct (mkcolTargets (trace (session srv calls (newClient t))))"
    using session_preserves[of srv "newClient t" calls] unfolding cacheCovers_def by blast
  show ?thesis
    by (intro conjI mkdir_result s1 s3 s4 s5 s6)
qed

theorem mkdirp_creates_uncached_prefixes_witness:
  "mkcolAccepted (\<lambda>n m p. Inr 201)
   \<and> trace (snd (mkdirp (\<lambda>n m p. Inr 201) ''/hosts/H1/projects''
        ((newClient 0)\<lparr>knownDirs := {''/hosts''}\<rparr>))) =
      [Sent ''MKCOL'' ''/hosts/H1'', Sent ''MKCOL'' ''/hosts/H1/projects'']
   \<and> distinct (mkcolTargets (trace (session (\<lambda>n m p. Inr 201)
        [CallMkdirp ''/hosts/H1/projects'', CallUpload ''/hosts/H1/machine.json'',
         CallMkdirp ''/hosts/H1/projects/p1''] (newClient 0))))"
proof -
  have acc: "mkcolAccepted (\<lambda>n m p. Inr 201)" by (simp add: mkcolAccepted_def)
  have anc: "ancestorPrefixes ''/hosts/H1/projects''
      = [''/hosts'', ''/hosts/H1'', ''/hosts/H1/projects'']"
    by (simp add: ancestorPrefixes_def)
  show ?thesis
    using acc
      mkdirp_creates_uncached_prefixes[of "\<lambda>n m p. Inr 201" "''/hosts/H1/projects''"
        "(newClient 0)\<lparr>knownDirs := {''/hosts''}\<rparr>"
        "[CallMkdirp ''/hosts/H1/projects'', CallUpload ''/hosts/H1/machine.json'',
          CallMkdirp ''/hosts/H1/projects/p1'']" 0]
    by (simp add: anc newClient_def)
qed

text \<open>
  C10. \<open>exists\<close> and \<open>testConnection\<close> never throw: each returns a boolean, which is true
  exactly when the \<open>PROPFIND\<close> request completes with status 207 or 200. Any other status
  and any error thrown by the request give false.
\<close>

theorem exists_path_never_throws:
  "fst (exists_path srv remotePath st) =
     Inr (fst (request srv ''PROPFIND'' remotePath None st) = Inr 207
          \<or> fst (request srv ''PROPFIND'' remotePath None st) = Inr 200)
   \<and> fst (testConnection srv st) =
     Inr (fst (request srv ''PROPFIND'' ''/'' None st) = Inr 207
          \<or> fst (request srv ''PROPFIND'' ''/'' None st) = Inr 200)"
  by (simp add: exists_path_def testConnection_def split: prod.split sum.split)

end
